theory Spec2Isabelle
  imports Complex_Main "HOL-Library.AList" "HOL-Library.While_Combinator"
begin

section \<open>Strings and regular expressions of the host language\<close>

text \<open>
  The analyser of \<^verbatim>\<open>src/services/parser.ts\<close> works on JavaScript strings with
  regular expressions. A string is modelled as a \<^typ>\<open>char list\<close> (code units below 256),
  a regular expression literal as a syntax tree, run by a backtracking matcher with the
  priorities of the ECMAScript one: alternatives left to right, quantifiers greedy, an
  iteration of a star that consumes nothing rejected.
\<close>

datatype cset = Chr char | Rng char char | Space

datatype regex =
    Eps
  | Lit char
  | Dot
  | OneOf "cset list"
  | NoneOf "cset list"
  | WordB
  | Eol
  | Seq regex regex
  | Alt regex regex
  | Star regex
  | Cap nat regex

text \<open>\<^verbatim>\<open>\s\<close>: tab, line feed, vertical tab, form feed, carriage return, space, no-break space.\<close>

definition isSpace :: "char \<Rightarrow> bool" where
  "isSpace x = (x \<in> set [CHR 0x09, CHR 0x0A, CHR 0x0B, CHR 0x0C, CHR 0x0D, CHR 0x20, CHR 0xA0])"

definition inRange :: "char \<Rightarrow> char \<Rightarrow> char \<Rightarrow> bool" where
  "inRange lo hi x = ((of_char lo :: nat) \<le> of_char x \<and> (of_char x :: nat) \<le> of_char hi)"

fun inCset :: "char \<Rightarrow> cset \<Rightarrow> bool" where
  "inCset x (Chr a) = (x = a)"
| "inCset x (Rng lo hi) = inRange lo hi x"
| "inCset x Space = isSpace x"

definition inClass :: "cset list \<Rightarrow> char \<Rightarrow> bool" where
  "inClass cs x = list_ex (inCset x) cs"

text \<open>\<^verbatim>\<open>\w\<close>, as \<^verbatim>\<open>\b\<close> uses it.\<close>

definition isWordChar :: "char \<Rightarrow> bool" where
  "isWordChar x = inClass [Rng CHR ''a'' CHR ''z'', Rng CHR ''A'' CHR ''Z'', Rng CHR ''0'' CHR ''9'', Chr CHR ''_''] x"

definition isLineTerminator :: "char \<Rightarrow> bool" where
  "isLineTerminator x = (x = CHR 0x0A \<or> x = CHR 0x0D)"

type_synonym caps = "(nat \<times> string) list"

text \<open>
  The matcher runs on the text still to read, with the character before it (for
  \<^verbatim>\<open>\b\<close>), the index reached and the groups captured so far, and hands them to a
  continuation; its answer is the end index and the groups of the first complete match.
\<close>

type_synonym cont = "char option \<Rightarrow> string \<Rightarrow> nat \<Rightarrow> caps \<Rightarrow> (nat \<times> caps) option"

definition oneChar :: "(char \<Rightarrow> bool) \<Rightarrow> char option \<Rightarrow> string \<Rightarrow> nat \<Rightarrow> caps \<Rightarrow> cont \<Rightarrow> (nat \<times> caps) option" where
  "oneChar P p s i c k =
     (case s of [] \<Rightarrow> None | x # xs \<Rightarrow> if P x then k (Some x) xs (Suc i) c else None)"

definition wordBefore :: "char option \<Rightarrow> bool" where
  "wordBefore p = (case p of None \<Rightarrow> False | Some x \<Rightarrow> isWordChar x)"

definition wordAfter :: "string \<Rightarrow> bool" where
  "wordAfter s = (case s of [] \<Rightarrow> False | x # xs \<Rightarrow> isWordChar x)"

text \<open>
  A greedy star: one more iteration first, then the rest of the pattern. An iteration must
  consume a character, so the length of the text bounds their number.
\<close>

primrec star_iter ::
  "nat \<Rightarrow> (char option \<Rightarrow> string \<Rightarrow> nat \<Rightarrow> caps \<Rightarrow> cont \<Rightarrow> (nat \<times> caps) option)
     \<Rightarrow> char option \<Rightarrow> string \<Rightarrow> nat \<Rightarrow> caps \<Rightarrow> cont \<Rightarrow> (nat \<times> caps) option" where
  "star_iter 0 m p s i c k = k p s i c"
| "star_iter (Suc n) m p s i c k =
     (case m p s i c (\<lambda>p' s' i' c'. if i < i' then star_iter n m p' s' i' c' k else None) of
        Some r \<Rightarrow> Some r
      | None \<Rightarrow> k p s i c)"

primrec rmatch :: "regex \<Rightarrow> char option \<Rightarrow> string \<Rightarrow> nat \<Rightarrow> caps \<Rightarrow> cont \<Rightarrow> (nat \<times> caps) option" where
  "rmatch Eps p s i c k = k p s i c"
| "rmatch (Lit a) p s i c k = oneChar (\<lambda>x. x = a) p s i c k"
| "rmatch Dot p s i c k = oneChar (\<lambda>x. \<not> isLineTerminator x) p s i c k"
| "rmatch (OneOf cs) p s i c k = oneChar (inClass cs) p s i c k"
| "rmatch (NoneOf cs) p s i c k = oneChar (\<lambda>x. \<not> inClass cs x) p s i c k"
| "rmatch WordB p s i c k = (if wordBefore p \<noteq> wordAfter s then k p s i c else None)"
| "rmatch Eol p s i c k = (if s = [] then k p s i c else None)"
| "rmatch (Seq r1 r2) p s i c k = rmatch r1 p s i c (\<lambda>p' s' i' c'. rmatch r2 p' s' i' c' k)"
| "rmatch (Alt r1 r2) p s i c k =
     (case rmatch r1 p s i c k of Some r \<Rightarrow> Some r | None \<Rightarrow> rmatch r2 p s i c k)"
| "rmatch (Star r) p s i c k = star_iter (length s) (rmatch r) p s i c k"
| "rmatch (Cap n r) p s i c k =
     rmatch r p s i c (\<lambda>p' s' i' c'. k p' s' i' ((n, take (i' - i) s) # c'))"

definition rplus :: "regex \<Rightarrow> regex" where
  "rplus r = Seq r (Star r)"

definition opt :: "regex \<Rightarrow> regex" where
  "opt r = Alt r Eps"

definition seqs :: "regex list \<Rightarrow> regex" where
  "seqs rs = foldr Seq rs Eps"

definition alts :: "regex \<Rightarrow> regex list \<Rightarrow> regex" where
  "alts r rs = foldl Alt r rs"

definition lits :: "string \<Rightarrow> regex" where
  "lits s = seqs (map Lit s)"

abbreviation ws :: regex where
  "ws \<equiv> OneOf [Space]"

text \<open>The result of \<^verbatim>\<open>exec\<close>: \<^verbatim>\<open>match.index\<close>, \<^verbatim>\<open>match[0]\<close> and the groups.\<close>

record rxmatch =
  m_index :: nat
  m_text :: string
  m_groups :: caps

definition capture :: "rxmatch \<Rightarrow> nat \<Rightarrow> string option" where
  "capture m n = map_of (m_groups m) n"

definition matchHere :: "regex \<Rightarrow> char option \<Rightarrow> string \<Rightarrow> nat \<Rightarrow> rxmatch option" where
  "matchHere r p s i =
     (case rmatch r p s i [] (\<lambda>p' s' i' c'. Some (i', c')) of
        None \<Rightarrow> None
      | Some (e, c) \<Rightarrow> Some \<lparr>m_index = i, m_text = take (e - i) s, m_groups = c\<rparr>)"

text \<open>The leftmost match at or after the index reached.\<close>

fun search :: "regex \<Rightarrow> char option \<Rightarrow> string \<Rightarrow> nat \<Rightarrow> rxmatch option" where
  "search r p [] i = matchHere r p [] i"
| "search r p (x # xs) i =
     (case matchHere r p (x # xs) i of
        Some m \<Rightarrow> Some m
      | None \<Rightarrow> search r (Some x) xs (Suc i))"

text \<open>
  The loop \<^verbatim>\<open>while (true) { match = regex.exec(content); if (!match) break; ... }\<close>
  over a regular expression with the flag \<^verbatim>\<open>g\<close>: the matches it visits, in order.
  \<^verbatim>\<open>exec\<close> resumes at \<^verbatim>\<open>lastIndex\<close>, the end of the previous match; after an empty
  match \<^verbatim>\<open>lastIndex\<close> does not move, the same match is found again and the loop never
  ends, which is the value \<open>None\<close>.
\<close>

function execLoop :: "regex \<Rightarrow> char option \<Rightarrow> string \<Rightarrow> nat \<Rightarrow> rxmatch list option" where
  "execLoop r p [] i = (case matchHere r p [] i of None \<Rightarrow> Some [] | Some m \<Rightarrow> None)"
| "execLoop r p (x # xs) i =
     (case matchHere r p (x # xs) i of
        None \<Rightarrow> execLoop r (Some x) xs (Suc i)
      | Some m \<Rightarrow>
          (if m_text m = [] then None
           else map_option (Cons m)
                  (execLoop r (Some (last (m_text m))) (drop (length (m_text m)) (x # xs))
                     (i + length (m_text m)))))"
  by pat_completeness auto
termination
  by (relation "measure (\<lambda>(r, p, s, i). length s)") auto

definition matchAll :: "regex \<Rightarrow> string \<Rightarrow> rxmatch list option" where
  "matchAll r s = execLoop r None s 0"

text \<open>\<^verbatim>\<open>s.replace(r, '')\<close> for a regular expression without the flag \<^verbatim>\<open>g\<close>.\<close>

definition removeFirst :: "regex \<Rightarrow> string \<Rightarrow> string" where
  "removeFirst r s =
     (case search r None s 0 of
        None \<Rightarrow> s
      | Some m \<Rightarrow> take (m_index m) s @ drop (m_index m + length (m_text m)) s)"

text \<open>
  \<^verbatim>\<open>s.split(r)\<close> for a regular expression without groups: the pieces between the
  matches; a match that ends where the current piece starts is skipped.
\<close>

function splitFrom :: "regex \<Rightarrow> char option \<Rightarrow> string \<Rightarrow> string \<Rightarrow> string list" where
  "splitFrom r p acc [] = [acc]"
| "splitFrom r p acc (x # xs) =
     (case matchHere r p (x # xs) 0 of
        None \<Rightarrow> splitFrom r (Some x) (acc @ [x]) xs
      | Some m \<Rightarrow>
          (if m_text m = [] then
             (if acc = [] then splitFrom r (Some x) [x] xs
              else acc # splitFrom r p [] (x # xs))
           else acc # splitFrom r (Some (last (m_text m))) [] (drop (length (m_text m)) (x # xs))))"
  by pat_completeness auto
termination
  by (relation "measure (\<lambda>(r, p, acc, s). 2 * length s + (if acc = [] then 0 else 1))")
     (auto simp: neq_Nil_conv)

definition splitRegex :: "regex \<Rightarrow> string \<Rightarrow> string list" where
  "splitRegex r s =
     (if s = [] then (case matchHere r None [] 0 of None \<Rightarrow> [[]] | Some m \<Rightarrow> [])
      else splitFrom r None [] s)"

text \<open>\<^verbatim>\<open>s.split(sep)\<close> for a separator of one character.\<close>

fun splitOn :: "char \<Rightarrow> string \<Rightarrow> string \<Rightarrow> string list" where
  "splitOn sep acc [] = [acc]"
| "splitOn sep acc (x # xs) =
     (if x = sep then acc # splitOn sep [] xs else splitOn sep (acc @ [x]) xs)"

definition split :: "char \<Rightarrow> string \<Rightarrow> string list" where
  "split sep s = splitOn sep [] s"

fun join :: "string \<Rightarrow> string list \<Rightarrow> string" where
  "join sep [] = []"
| "join sep [x] = x"
| "join sep (x # y # ys) = x @ sep @ join sep (y # ys)"

definition trim :: "string \<Rightarrow> string" where
  "trim s = rev (dropWhile isSpace (rev (dropWhile isSpace s)))"

definition startsWith :: "string \<Rightarrow> string \<Rightarrow> bool" where
  "startsWith s t = (take (length t) s = t)"

definition endsWith :: "string \<Rightarrow> string \<Rightarrow> bool" where
  "endsWith s t = (length t \<le> length s \<and> drop (length s - length t) s = t)"

fun includesStr :: "string \<Rightarrow> string \<Rightarrow> bool" where
  "includesStr [] t = (t = [])"
| "includesStr (x # xs) t = (startsWith (x # xs) t \<or> includesStr xs t)"

text \<open>The line of an index: \<^verbatim>\<open>content.substring(0, index).split('\n').length\<close>.\<close>

definition lineOf :: "string \<Rightarrow> nat \<Rightarrow> nat" where
  "lineOf content idx = length (split CHR 0x0A (take idx content))"

section \<open>The data model of \<^verbatim>\<open>src/types.ts\<close>\<close>

datatype SupportedLanguage = Typescript | Javascript | Python | Go | Java | Rust

text \<open>The string of a language tag, as \<^verbatim>\<open>language: lang\<close> stores it.\<close>

fun langTag :: "SupportedLanguage \<Rightarrow> string" where
  "langTag Typescript = ''typescript''"
| "langTag Javascript = ''javascript''"
| "langTag Python = ''python''"
| "langTag Go = ''go''"
| "langTag Java = ''java''"
| "langTag Rust = ''rust''"

datatype NodeType = NFunction | NMethod | NClass | NFile | NLibrary | NInterface | NType

datatype LinkType = LCall | LStructure | LImport

text \<open>\<^verbatim>\<open>size\<close> is a JavaScript number; the model adds the increments exactly.\<close>

record CodeNode =
  n_id :: string
  n_name :: string
  n_file :: string
  n_line :: nat
  n_size :: rat
  n_color :: string
  n_language :: string
  n_linesOfCode :: nat
  n_type :: NodeType
  n_isType :: "bool option"
  n_isLibrary :: "bool option"

record CodeLink =
  l_source :: string
  l_target :: string
  l_value :: nat
  l_type :: "LinkType option"

record GraphData =
  nodes :: "CodeNode list"
  links :: "CodeLink list"

section \<open>The state of \<^verbatim>\<open>CodeParser\<close>\<close>

text \<open>
  A \<^verbatim>\<open>Map\<close> keeps its keys in insertion order, and \<^verbatim>\<open>set\<close> on a key already
  there replaces the value in place: an association list under \<^const>\<open>AList.update\<close>.
\<close>

definition mapSet :: "'k \<Rightarrow> 'v \<Rightarrow> ('k \<times> 'v) list \<Rightarrow> ('k \<times> 'v) list" where
  "mapSet k v m = AList.update k v m"

definition mapGet :: "'k \<Rightarrow> ('k \<times> 'v) list \<Rightarrow> 'v option" where
  "mapGet k m = map_of m k"

definition mapHas :: "'k \<Rightarrow> ('k \<times> 'v) list \<Rightarrow> bool" where
  "mapHas k m = (map_of m k \<noteq> None)"

definition mapValues :: "('k \<times> 'v) list \<Rightarrow> 'v list" where
  "mapValues m = map snd m"

record ImportMeta =
  sourceFile :: string
  originalName :: string

record CodeParser =
  this_nodes :: "(string \<times> CodeNode) list"
  this_links :: "CodeLink list"
  this_folderColors :: "(string \<times> string) list"
  this_importRegistry :: "(string \<times> (string \<times> ImportMeta) list) list"
  this_classMethods :: "(string \<times> (string \<times> (string \<times> string) list) list) list"

definition greenPalette :: "string list" where
  "greenPalette =
     [''#00ff41'', ''#00ff9f'', ''#ccff00'', ''#00ffff'', ''#a0ff00'',
      ''#39ff14'', ''#7fff00'', ''#00ffcc'', ''#f0ff00'', ''#adff2f'']"

text \<open>A loop whose body may fail to return: the first failure ends it.\<close>

fun foldOpt :: "('a \<Rightarrow> 's \<Rightarrow> 's option) \<Rightarrow> 'a list \<Rightarrow> 's \<Rightarrow> 's option" where
  "foldOpt f [] s = Some s"
| "foldOpt f (x # xs) s = (case f x s of None \<Rightarrow> None | Some s' \<Rightarrow> foldOpt f xs s')"

text \<open>\<^verbatim>\<open>a || b\<close> on values that may be undefined: the empty string is falsy too.\<close>

definition truthy :: "string option \<Rightarrow> bool" where
  "truthy a = (case a of None \<Rightarrow> False | Some x \<Rightarrow> x \<noteq> [])"

definition orElse :: "string option \<Rightarrow> string option \<Rightarrow> string option" where
  "orElse a b = (if truthy a then a else b)"

text \<open>
  A value in a template literal: \<^verbatim>\<open>undefined\<close> prints as its name. The groups that
  the code reads without a test stand outside every alternative of their pattern, so
  they are defined in every match.
\<close>

definition templ :: "string option \<Rightarrow> string" where
  "templ a = (case a of None \<Rightarrow> ''undefined'' | Some x \<Rightarrow> x)"

text \<open>\<^verbatim>\<open>xs.pop()\<close>, the value it returns: the last element, undefined on an empty array.\<close>

definition pop :: "'a list \<Rightarrow> 'a option" where
  "pop xs = (if xs = [] then None else Some (last xs))"

text \<open>\<^verbatim>\<open>s.substring(a, b)\<close>: both indices clamped to the length, and swapped when \<open>b < a\<close>.\<close>

definition substring :: "string \<Rightarrow> nat \<Rightarrow> nat \<Rightarrow> string" where
  "substring s a b =
     (let a' = min a (length s); b' = min b (length s)
      in take (max a' b' - min a' b') (drop (min a' b') s))"

section \<open>Paths\<close>

definition normalizePath :: "string \<Rightarrow> string" where
  "normalizePath rawPath =
     (let parts = splitRegex (rplus (OneOf [Chr CHR 0x5C, Chr CHR ''/''])) rawPath;
          stack = foldl (\<lambda>stack part.
                    if part = [] \<or> part = ''.'' then stack
                    else if part = ''..'' then butlast stack
                    else stack @ [part]) [] parts
      in join ''/'' stack)"

definition resolveImportPath :: "string \<Rightarrow> string \<Rightarrow> string" where
  "resolveImportPath filePath importPath =
     (if \<not> startsWith importPath ''.'' then importPath
      else let baseDir = join ''/'' (butlast (split CHR ''/'' filePath))
           in normalizePath (baseDir @ ''/'' @ importPath))"

definition getFolderColor :: "string \<Rightarrow> CodeParser \<Rightarrow> string \<times> CodeParser" where
  "getFolderColor path st =
     (let segments = butlast (splitRegex (OneOf [Chr CHR 0x5C, Chr CHR ''/'']) path);
          joined = join ''/'' segments;
          folder = (if joined = [] then ''root'' else joined);
          st' = (if \<not> mapHas folder (this_folderColors st)
                 then let colorIdx = length (this_folderColors st) mod length greenPalette
                      in st\<lparr>this_folderColors :=
                             mapSet folder (greenPalette ! colorIdx) (this_folderColors st)\<rparr>
                 else st);
          color = mapGet folder (this_folderColors st')
      in ((if truthy color then templ color else greenPalette ! 0), st'))"

definition generateId :: "string \<Rightarrow> string \<Rightarrow> string" where
  "generateId file name = file @ '':'' @ name"

definition detectLanguage :: "string \<Rightarrow> SupportedLanguage \<Rightarrow> SupportedLanguage" where
  "detectLanguage fileName fallback =
     (if endsWith fileName ''.ts'' \<or> endsWith fileName ''.tsx'' then Typescript
      else if endsWith fileName ''.js'' \<or> endsWith fileName ''.jsx'' then Javascript
      else if endsWith fileName ''.py'' then Python
      else if endsWith fileName ''.go'' then Go
      else if endsWith fileName ''.java'' then Java
      else if endsWith fileName ''.rs'' then Rust
      else fallback)"


section \<open>The patterns\<close>

text \<open>\<^verbatim>\<open>[a-zA-Z0-9_]\<close> and \<^verbatim>\<open>[a-zA-Z0-9_$]\<close>.\<close>

definition wordC :: regex where
  "wordC = OneOf [Rng CHR ''a'' CHR ''z'', Rng CHR ''A'' CHR ''Z'', Rng CHR ''0'' CHR ''9'', Chr CHR ''_'']"

definition identC :: regex where
  "identC = OneOf [Rng CHR ''a'' CHR ''z'', Rng CHR ''A'' CHR ''Z'', Rng CHR ''0'' CHR ''9'', Chr CHR ''_'',
                   Chr CHR ''$'']"

text \<open>
  \<^verbatim>\<open>/\b(?:pub(?:\([^)]+\))?\s+)?(?:async\s+)?fn\s+([a-zA-Z0-9_]+)\s*(?:<[^>]*>)?\s*\(/g\<close>
\<close>

definition rustPattern :: regex where
  "rustPattern =
     seqs [WordB,
           opt (seqs [lits ''pub'',
                      opt (seqs [Lit CHR ''('', rplus (NoneOf [Chr CHR '')'']), Lit CHR '')'']),
                      rplus ws]),
           opt (seqs [lits ''async'', rplus ws]),
           lits ''fn'', rplus ws, Cap 1 (rplus wordC), Star ws,
           opt (seqs [Lit CHR ''<'', Star (NoneOf [Chr CHR ''>'']), Lit CHR ''>'']),
           Star ws, Lit CHR ''('']"

text \<open>
  \<^verbatim>\<open>/(?:export\s+)?(?:function\s+([a-zA-Z0-9_$]+)|(?:const|let|var)\s+([a-zA-Z0-9_$]+)\s*=\s*(?:async\s*)?(?:\([^)]*\)|[a-zA-Z0-9_$]+)\s*=>)/g\<close>,
  for \<^verbatim>\<open>javascript\<close> and \<^verbatim>\<open>typescript\<close> alike.
\<close>

definition scriptPattern :: regex where
  "scriptPattern =
     seqs [opt (seqs [lits ''export'', rplus ws]),
           Alt (seqs [lits ''function'', rplus ws, Cap 1 (rplus identC)])
               (seqs [alts (lits ''const'') [lits ''let'', lits ''var''], rplus ws,
                      Cap 2 (rplus identC), Star ws, Lit CHR ''='', Star ws,
                      opt (seqs [lits ''async'', Star ws]),
                      Alt (seqs [Lit CHR ''('', Star (NoneOf [Chr CHR '')'']), Lit CHR '')''])
                          (rplus identC),
                      Star ws, lits ''=>''])]"

text \<open>\<^verbatim>\<open>/def\s+([a-zA-Z0-9_]+)\s*\(/g\<close>\<close>

definition pythonPattern :: regex where
  "pythonPattern = seqs [lits ''def'', rplus ws, Cap 1 (rplus wordC), Star ws, Lit CHR ''('']"

text \<open>The table \<^verbatim>\<open>patterns\<close> of \<^verbatim>\<open>extractEntities\<close>: no entry for \<^verbatim>\<open>go\<close> and \<^verbatim>\<open>java\<close>.\<close>

fun patterns :: "SupportedLanguage \<Rightarrow> regex option" where
  "patterns Rust = Some rustPattern"
| "patterns Javascript = Some scriptPattern"
| "patterns Typescript = Some scriptPattern"
| "patterns Python = Some pythonPattern"
| "patterns Go = None"
| "patterns Java = None"

text \<open>\<^verbatim>\<open>/(?:export\s+)?(?:interface|type)\s+([a-zA-Z0-9_$]+)/g\<close>\<close>

definition interfacePattern :: regex where
  "interfacePattern =
     seqs [opt (seqs [lits ''export'', rplus ws]),
           Alt (lits ''interface'') (lits ''type''), rplus ws, Cap 1 (rplus identC)]"

text \<open>\<^verbatim>\<open>/class\s+([a-zA-Z0-9_$]+)\s*(?:extends\s+[a-zA-Z0-9_$]+)?\s*\{/g\<close>\<close>

definition classPattern :: regex where
  "classPattern =
     seqs [lits ''class'', rplus ws, Cap 1 (rplus identC), Star ws,
           opt (seqs [lits ''extends'', rplus ws, rplus identC]),
           Star ws, Lit CHR ''{'']"

text \<open>
  \<^verbatim>\<open>/(?:async\s+)?(?:private\s+|protected\s+|public\s+)?(?:static\s+)?(?:async\s+)?([a-zA-Z0-9_$]+)\s*\([^)]*\)\s*(?::\s*[^{]+)?\s*\{/g\<close>
\<close>

definition methodPattern :: regex where
  "methodPattern =
     seqs [opt (seqs [lits ''async'', rplus ws]),
           opt (alts (seqs [lits ''private'', rplus ws])
                     [seqs [lits ''protected'', rplus ws], seqs [lits ''public'', rplus ws]]),
           opt (seqs [lits ''static'', rplus ws]),
           opt (seqs [lits ''async'', rplus ws]),
           Cap 1 (rplus identC), Star ws,
           Lit CHR ''('', Star (NoneOf [Chr CHR '')'']), Lit CHR '')'', Star ws,
           opt (seqs [Lit CHR '':'', Star ws, rplus (NoneOf [Chr CHR ''{''])]),
           Star ws, Lit CHR ''{'']"

text \<open>
  \<^verbatim>\<open>/import\s+(?:([a-zA-Z0-9_$]+)|(?:\{([^}]+)\})|(?:\*\s+as\s+([a-zA-Z0-9_$]+)))\s+from\s+['"]([^'"]+)['"]/g\<close>
\<close>

definition importRegex :: regex where
  "importRegex =
     seqs [lits ''import'', rplus ws,
           alts (Cap 1 (rplus identC))
                [seqs [Lit CHR ''{'', Cap 2 (rplus (NoneOf [Chr CHR ''}''])), Lit CHR ''}''],
                 seqs [Lit CHR ''*'', rplus ws, lits ''as'', rplus ws, Cap 3 (rplus identC)]],
           rplus ws, lits ''from'', rplus ws,
           OneOf [Chr CHR 0x27, Chr CHR 0x22],
           Cap 4 (rplus (NoneOf [Chr CHR 0x27, Chr CHR 0x22])),
           OneOf [Chr CHR 0x27, Chr CHR 0x22]]"

text \<open>\<^verbatim>\<open>/\s+as\s+/\<close> and \<^verbatim>\<open>/\.(ts|js)x?$/\<close>.\<close>

definition asPattern :: regex where
  "asPattern = seqs [rplus ws, lits ''as'', rplus ws]"

definition extPattern :: regex where
  "extPattern = seqs [Lit CHR ''.'', Cap 1 (Alt (lits ''ts'') (lits ''js'')), opt (Lit CHR ''x''), Eol]"

section \<open>Entities\<close>

definition reserved :: "string list" where
  "reserved = [''if'', ''while'', ''for'', ''loop'', ''match'']"

text \<open>The body of the loop of \<^verbatim>\<open>extractEntities\<close>, for one match.\<close>

definition entityStep ::
  "string \<Rightarrow> string \<Rightarrow> SupportedLanguage \<Rightarrow> string \<Rightarrow> rxmatch \<Rightarrow> CodeParser \<Rightarrow> CodeParser" where
  "entityStep content path lang folderColor m st =
     (let name = orElse (capture m 1) (capture m 2)
      in if \<not> truthy name \<or> templ name \<in> set reserved then st
         else let lineNum = lineOf content (m_index m);
                  ident = generateId path (templ name)
              in st\<lparr>this_nodes := mapSet ident
                     \<lparr>n_id = ident, n_name = templ name, n_file = path, n_line = lineNum,
                      n_size = 8, n_color = folderColor, n_language = langTag lang,
                      n_linesOfCode = 0, n_type = NFunction, n_isType = None,
                      n_isLibrary = None\<rparr> (this_nodes st)\<rparr>)"

text \<open>The body of the loop of \<^verbatim>\<open>extractTypeScriptTypes\<close>.\<close>

definition typeStep :: "string \<Rightarrow> string \<Rightarrow> rxmatch \<Rightarrow> CodeParser \<Rightarrow> CodeParser" where
  "typeStep content path m st =
     (let typeName = templ (capture m 1);
          isInterface = includesStr (m_text m) ''interface'';
          lineNum = lineOf content (m_index m);
          typeId = path @ '':'' @ typeName
      in if \<not> mapHas typeId (this_nodes st)
         then st\<lparr>this_nodes := mapSet typeId
                \<lparr>n_id = typeId, n_name = typeName, n_file = path, n_line = lineNum,
                 n_size = 6, n_color = (if isInterface then ''#00bfff'' else ''#ff69b4''),
                 n_language = ''typescript'', n_linesOfCode = 0,
                 n_type = (if isInterface then NInterface else NType), n_isType = Some True,
                 n_isLibrary = None\<rparr> (this_nodes st)\<rparr>
         else st)"

definition extractTypeScriptTypes :: "string \<Rightarrow> string \<Rightarrow> string \<Rightarrow> CodeParser \<Rightarrow> CodeParser option" where
  "extractTypeScriptTypes content path folderColor st =
     (case matchAll interfacePattern content of
        None \<Rightarrow> None
      | Some ms \<Rightarrow> Some (fold (typeStep content path) ms st))"

text \<open>
  The walk to the end of a class body: the state is \<^verbatim>\<open>(braceCount, classEndIdx)\<close>.
\<close>

definition braceStep :: "string \<Rightarrow> int \<times> nat \<Rightarrow> int \<times> nat" where
  "braceStep content = (\<lambda>(braceCount, classEndIdx).
     (let b1 = (if content ! classEndIdx = CHR ''{'' then braceCount + 1 else braceCount);
          b2 = (if content ! classEndIdx = CHR ''}'' then b1 - 1 else b1)
      in (b2, Suc classEndIdx)))"

definition braceCond :: "string \<Rightarrow> int \<times> nat \<Rightarrow> bool" where
  "braceCond content = (\<lambda>(braceCount, classEndIdx). braceCount > 0 \<and> classEndIdx < length content)"

function scanBraces :: "string \<Rightarrow> int \<times> nat \<Rightarrow> int \<times> nat" where
  "scanBraces content bi =
     (if braceCond content bi then scanBraces content (braceStep content bi) else bi)"
  by pat_completeness auto
termination
  by (relation "measure (\<lambda>(content, b, i). length content - i)")
     (auto simp: braceCond_def braceStep_def Let_def)

text \<open>The body of the inner loop of \<^verbatim>\<open>extractClassMethods\<close>, for one method match.\<close>

definition methodStep ::
  "string \<Rightarrow> string \<Rightarrow> SupportedLanguage \<Rightarrow> string \<Rightarrow> string \<Rightarrow> nat \<Rightarrow> rxmatch
     \<Rightarrow> CodeParser \<times> (string \<times> string) list \<Rightarrow> CodeParser \<times> (string \<times> string) list" where
  "methodStep content path lang folderColor className classStartIdx m = (\<lambda>(st, classMethods).
     (let methodName = templ (capture m 1);
          methodLine = lineOf content (classStartIdx + m_index m);
          methodId = path @ '':'' @ className @ ''.'' @ methodName
      in (st\<lparr>this_nodes := mapSet methodId
             \<lparr>n_id = methodId, n_name = className @ ''.'' @ methodName, n_file = path,
              n_line = methodLine, n_size = 8, n_color = folderColor, n_language = langTag lang,
              n_linesOfCode = 0, n_type = NMethod, n_isType = None, n_isLibrary = None\<rparr>
             (this_nodes st)\<rparr>,
          mapSet methodName methodId classMethods)))"

text \<open>The body of the outer loop of \<^verbatim>\<open>extractClassMethods\<close>, for one class match.\<close>

definition classStep ::
  "string \<Rightarrow> string \<Rightarrow> SupportedLanguage \<Rightarrow> string \<Rightarrow> rxmatch \<Rightarrow> CodeParser \<Rightarrow> CodeParser option" where
  "classStep content path lang folderColor classMatch st =
     (let className = templ (capture classMatch 1);
          classStartIdx = m_index classMatch;
          classEndIdx = snd (scanBraces content (1, classStartIdx + length (m_text classMatch)));
          classContent = substring content classStartIdx classEndIdx
      in case matchAll methodPattern classContent of
           None \<Rightarrow> None
         | Some ms \<Rightarrow>
             (let (st1, classMethods) =
                    fold (methodStep content path lang folderColor className classStartIdx) ms (st, []);
                  registry = (if \<not> mapHas path (this_classMethods st1)
                              then mapSet path [] (this_classMethods st1)
                              else this_classMethods st1)
              in Some (case mapGet path registry of
                         None \<Rightarrow> st1\<lparr>this_classMethods := registry\<rparr>
                       | Some fileClassMethods \<Rightarrow>
                           st1\<lparr>this_classMethods :=
                                 mapSet path (mapSet className classMethods fileClassMethods) registry\<rparr>)))"

definition extractClassMethods ::
  "string \<Rightarrow> string \<Rightarrow> SupportedLanguage \<Rightarrow> string \<Rightarrow> CodeParser \<Rightarrow> CodeParser option" where
  "extractClassMethods content path lang folderColor st =
     (case matchAll classPattern content of
        None \<Rightarrow> None
      | Some cs \<Rightarrow> foldOpt (classStep content path lang folderColor) cs st)"

text \<open>The first block of \<^verbatim>\<open>extractEntities\<close>: \<^verbatim>\<open>if (regex) { while (true) ... }\<close>.\<close>

definition extractFunctions ::
  "string \<Rightarrow> string \<Rightarrow> SupportedLanguage \<Rightarrow> string \<Rightarrow> CodeParser \<Rightarrow> CodeParser option" where
  "extractFunctions content path lang folderColor st =
     (case patterns lang of
        None \<Rightarrow> Some st
      | Some regex \<Rightarrow>
          (case matchAll regex content of
             None \<Rightarrow> None
           | Some ms \<Rightarrow> Some (fold (entityStep content path lang folderColor) ms st)))"

definition extractEntities :: "string \<Rightarrow> string \<Rightarrow> SupportedLanguage \<Rightarrow> CodeParser \<Rightarrow> CodeParser option" where
  "extractEntities content path lang st =
     (let (folderColor, st1) = getFolderColor path st
      in case extractFunctions content path lang folderColor st1 of
           None \<Rightarrow> None
         | Some st2 \<Rightarrow>
             if lang = Typescript \<or> lang = Javascript then
               (case extractClassMethods content path lang folderColor st2 of
                  None \<Rightarrow> None
                | Some st3 \<Rightarrow>
                    if lang = Typescript then extractTypeScriptTypes content path folderColor st3
                    else Some st3)
             else Some st2)"

section \<open>Imports\<close>

text \<open>One name of a named import, \<^verbatim>\<open>p\<close> of \<^verbatim>\<open>namedImports.split(',')\<close>.\<close>

definition namedStep :: "string \<Rightarrow> string \<Rightarrow> (string \<times> ImportMeta) list \<Rightarrow> (string \<times> ImportMeta) list" where
  "namedStep resolvedPath p fileImports =
     (let parts = splitRegex asPattern (trim p);
          orig = (case parts of [] \<Rightarrow> None | a # rest \<Rightarrow> Some a);
          alias = (case parts of a # b # rest \<Rightarrow> Some b | _ \<Rightarrow> None)
      in mapSet (templ (orElse alias orig))
           \<lparr>sourceFile = resolvedPath, originalName = templ orig\<rparr> fileImports)"

text \<open>The body of the loop of \<^verbatim>\<open>extractImports\<close>, for one import statement.\<close>

definition importStep :: "string \<Rightarrow> rxmatch \<Rightarrow> (string \<times> ImportMeta) list \<Rightarrow> (string \<times> ImportMeta) list" where
  "importStep path m fileImports =
     (let defaultImport = capture m 1;
          namedImports = capture m 2;
          starImport = capture m 3;
          importPath = templ (capture m 4);
          resolvedPath = resolveImportPath path importPath;
          f1 = (if truthy defaultImport
                then mapSet (templ defaultImport)
                       \<lparr>sourceFile = resolvedPath, originalName = ''default''\<rparr> fileImports
                else fileImports);
          f2 = (if truthy starImport
                then mapSet (templ starImport)
                       \<lparr>sourceFile = resolvedPath, originalName = ''*''\<rparr> f1
                else f1)
      in if truthy namedImports
         then fold (namedStep resolvedPath) (split CHR '','' (templ namedImports)) f2
         else f2)"

definition extractImports :: "string \<Rightarrow> string \<Rightarrow> SupportedLanguage \<Rightarrow> CodeParser \<Rightarrow> CodeParser option" where
  "extractImports content path lang st =
     (if lang \<noteq> Typescript \<and> lang \<noteq> Javascript then Some st
      else case matchAll importRegex content of
             None \<Rightarrow> None
           | Some ms \<Rightarrow>
               Some (st\<lparr>this_importRegistry :=
                          mapSet path (fold (importStep path) ms []) (this_importRegistry st)\<rparr>))"

definition extensions :: "string list" where
  "extensions = [[], ''.ts'', ''.tsx'', ''.js'', ''.jsx'', ''.d.ts'', ''/index.ts'', ''/index.tsx'',
                 ''/index.js'', ''/index.jsx'']"

text \<open>\<^verbatim>\<open>this.links.find(l => l.source === a && l.target === b)\<close>, as a test.\<close>

definition existingLink :: "string \<Rightarrow> string \<Rightarrow> CodeLink list \<Rightarrow> bool" where
  "existingLink a b ls = list_ex (\<lambda>l. l_source l = a \<and> l_target l = b) ls"

text \<open>The body of the loop over the bindings of one importing file.\<close>

definition importLinkStep :: "string \<Rightarrow> string \<times> ImportMeta \<Rightarrow> CodeParser \<Rightarrow> CodeParser" where
  "importLinkStep importingFile = (\<lambda>(localName, importMeta) st.
     (let resolvedPath = sourceFile importMeta
      in case find (\<lambda>ext. mapHas (resolvedPath @ ext) (this_nodes st)) extensions of
           None \<Rightarrow> st
         | Some ext \<Rightarrow>
             (let targetPath = resolvedPath @ ext
              in if \<not> existingLink importingFile targetPath (this_links st)
                 then st\<lparr>this_links := this_links st @
                        [\<lparr>l_source = importingFile, l_target = targetPath, l_value = 3,
                          l_type = Some LImport\<rparr>]\<rparr>
                 else st)))"

definition createFileImportLinks :: "string list \<Rightarrow> CodeParser \<Rightarrow> CodeParser" where
  "createFileImportLinks filePaths st =
     fold (\<lambda>(importingFile, imports) st'.
             if \<not> mapHas importingFile (this_nodes st') then st'
             else fold (importLinkStep importingFile) imports st')
       (this_importRegistry st) st"

section \<open>Calls\<close>

text \<open>
  \<^verbatim>\<open>findEnclosingEntity\<close>: the entities of the file, by descending line (the sort is
  stable, so entities of one line keep the order of the \<^verbatim>\<open>Map\<close>), the first at or
  before the line.
\<close>

definition findEnclosingEntity :: "CodeParser \<Rightarrow> string \<Rightarrow> nat \<Rightarrow> CodeNode option" where
  "findEnclosingEntity st path line =
     find (\<lambda>n. n_line n \<le> line)
       (sort_key (\<lambda>n. - int (n_line n))
          (filter (\<lambda>n. n_file n = path \<and> n_type n \<noteq> NFile) (mapValues (this_nodes st))))"

text \<open>
  The body of the loop over the call sites of one target, for the match at \<open>idx\<close>. The
  increment goes to the node stored under the target's id.
\<close>

definition callStep :: "string \<Rightarrow> string \<Rightarrow> CodeNode \<Rightarrow> nat \<Rightarrow> CodeParser \<Rightarrow> CodeParser" where
  "callStep content path targetNode idx st =
     (let currentLine = lineOf content idx
      in case findEnclosingEntity st path currentLine of
           None \<Rightarrow> st
         | Some sourceNode \<Rightarrow>
             if n_id sourceNode \<noteq> n_id targetNode then
               (if \<not> existingLink (n_id sourceNode) (n_id targetNode) (this_links st)
                then let st1 = st\<lparr>this_links := this_links st @
                               [\<lparr>l_source = n_id sourceNode, l_target = n_id targetNode,
                                 l_value = 1, l_type = Some LCall\<rparr>]\<rparr>
                     in case mapGet (n_id targetNode) (this_nodes st1) of
                          None \<Rightarrow> st1
                        | Some node \<Rightarrow>
                            st1\<lparr>this_nodes := mapSet (n_id targetNode)
                                  (node\<lparr>n_size := n_size node + 3 / 10\<rparr>) (this_nodes st1)\<rparr>
                else st)
             else st)"

text \<open>The test of one binding in the visibility loop.\<close>

definition bindingMatches :: "CodeNode \<Rightarrow> string \<times> ImportMeta \<Rightarrow> bool" where
  "bindingMatches targetNode = (\<lambda>(localName, meta).
     (let targetBaseName = pop (split CHR ''/'' (removeFirst extPattern (n_file targetNode)));
          importBaseName = pop (split CHR ''/'' (removeFirst extPattern (sourceFile meta)))
      in (targetBaseName = importBaseName \<or> includesStr (n_file targetNode) (sourceFile meta)) \<and>
         (originalName meta = ''*'' \<or> originalName meta = n_name targetNode)))"

text \<open>\<^verbatim>\<open>isVisible\<close> and \<^verbatim>\<open>callName\<close> after the visibility loop.\<close>

definition visibility ::
  "string \<Rightarrow> (string \<times> ImportMeta) list option \<Rightarrow> CodeNode \<Rightarrow> bool \<times> string" where
  "visibility path fileImports targetNode =
     (if n_file targetNode = path then (True, n_name targetNode)
      else case fileImports of
             None \<Rightarrow> (False, n_name targetNode)
           | Some imports \<Rightarrow>
               (case find (bindingMatches targetNode) imports of
                  None \<Rightarrow> (False, n_name targetNode)
                | Some (localName, meta) \<Rightarrow> (True, localName)))"

text \<open>
  The pattern of a call site is built at run time,
  \<^verbatim>\<open>new RegExp(`\\b${callName}\\s*\\(`, 'g')\<close>, with the name spliced in as pattern text.
  What the host's \<^verbatim>\<open>RegExp\<close> makes of a pattern source is a parameter of the model:
  \<open>callSites source content\<close> is the list of the values of \<^verbatim>\<open>match.index\<close> that the
  loop over \<^verbatim>\<open>callRegex.exec(content)\<close> visits, and \<open>None\<close> when the constructor throws
  or the loop never ends.
\<close>

type_synonym callSites = "string \<Rightarrow> string \<Rightarrow> nat list option"

text \<open>The source of the pattern: \<^verbatim>\<open>`\\b${callName}\\s*\\(`\<close>.\<close>

definition callPattern :: "string \<Rightarrow> string" where
  "callPattern callName = [CHR 0x5C] @ ''b'' @ callName @ [CHR 0x5C] @ ''s*'' @ [CHR 0x5C] @ ''(''"

text \<open>The body of the loop of \<^verbatim>\<open>extractCalls\<close>, for one target node.\<close>

definition targetStep ::
  "callSites \<Rightarrow> string \<Rightarrow> string \<Rightarrow> SupportedLanguage \<Rightarrow> (string \<times> ImportMeta) list option
     \<Rightarrow> CodeNode \<Rightarrow> CodeParser \<Rightarrow> CodeParser option" where
  "targetStep callSites content path lang fileImports targetNode st =
     (if n_type targetNode = NFile then Some st
      else let (isVisible, callName) = visibility path fileImports targetNode
           in if \<not> isVisible \<and> lang \<noteq> Python then Some st
              else case callSites (callPattern callName) content of
                     None \<Rightarrow> None
                   | Some idxs \<Rightarrow> Some (fold (callStep content path targetNode) idxs st))"

definition extractCalls ::
  "callSites \<Rightarrow> string \<Rightarrow> string \<Rightarrow> SupportedLanguage \<Rightarrow> CodeParser \<Rightarrow> CodeParser option" where
  "extractCalls callSites content path lang st =
     (let fileImports = mapGet path (this_importRegistry st);
          allNodes = mapValues (this_nodes st)
      in foldOpt (targetStep callSites content path lang fileImports) allNodes st)"

section \<open>The analysis\<close>

text \<open>
  A \<^verbatim>\<open>File\<close> of the browser: its name, its relative path when it comes from a directory
  picker, and the text that \<^verbatim>\<open>file.text()\<close> resolves to (\<open>None\<close> when the read fails
  and the promise is rejected).
\<close>

record File =
  f_name :: string
  webkitRelativePath :: "string option"
  f_text :: "string option"

record FileContent =
  fc_name :: string
  fc_path :: string
  fc_content :: string
  fc_lang :: SupportedLanguage

fun readFiles :: "File list \<Rightarrow> SupportedLanguage \<Rightarrow> FileContent list option" where
  "readFiles [] mainLanguage = Some []"
| "readFiles (file # files) mainLanguage =
     (case f_text file of
        None \<Rightarrow> None
      | Some text \<Rightarrow>
          map_option
            (Cons \<lparr>fc_name = f_name file,
                   fc_path = normalizePath (templ (orElse (webkitRelativePath file) (Some (f_name file)))),
                   fc_content = text,
                   fc_lang = detectLanguage (f_name file) mainLanguage\<rparr>)
            (readFiles files mainLanguage))"

definition fileStep :: "FileContent \<Rightarrow> CodeParser \<Rightarrow> CodeParser" where
  "fileStep f st =
     (let (folderColor, st1) = getFolderColor (fc_path f) st
      in st1\<lparr>this_nodes := mapSet (fc_path f)
            \<lparr>n_id = fc_path f, n_name = fc_name f, n_file = fc_path f, n_line = 0, n_size = 15,
             n_color = folderColor, n_language = ''system'', n_linesOfCode = 0, n_type = NFile,
             n_isType = None, n_isLibrary = None\<rparr> (this_nodes st1)\<rparr>)"

text \<open>The last loop of \<^verbatim>\<open>analyzeFiles\<close>: the links from a file to what it declares.\<close>

definition structureLinks :: "CodeParser \<Rightarrow> CodeParser" where
  "structureLinks st =
     st\<lparr>this_links := this_links st @
        map (\<lambda>node. \<lparr>l_source = n_file node, l_target = n_id node, l_value = 2,
                      l_type = Some LStructure\<rparr>)
          (filter (\<lambda>node. n_type node \<noteq> NFile \<and> mapHas (n_file node) (this_nodes st))
             (mapValues (this_nodes st)))\<rparr>"

definition cleared :: CodeParser where
  "cleared = \<lparr>this_nodes = [], this_links = [], this_folderColors = [],
              this_importRegistry = [], this_classMethods = []\<rparr>"

text \<open>
  \<^verbatim>\<open>analyzeFiles\<close>, one run from the cleared state to the graph; \<open>None\<close> when the promise
  is rejected or the run never returns.
\<close>

definition analyzeFiles :: "callSites \<Rightarrow> File list \<Rightarrow> SupportedLanguage \<Rightarrow> GraphData option" where
  "analyzeFiles callSites files mainLanguage =
     (case readFiles files mainLanguage of
        None \<Rightarrow> None
      | Some fileContents \<Rightarrow>
          (let st1 = fold fileStep fileContents cleared
           in case foldOpt (\<lambda>f. extractEntities (fc_content f) (fc_path f) (fc_lang f)) fileContents st1 of
                None \<Rightarrow> None
              | Some st2 \<Rightarrow>
                  (case foldOpt (\<lambda>f. extractImports (fc_content f) (fc_path f) (fc_lang f)) fileContents st2 of
                     None \<Rightarrow> None
                   | Some st3 \<Rightarrow>
                       (let st4 = createFileImportLinks (map fc_path fileContents) st3
                        in case foldOpt (\<lambda>f. extractCalls callSites (fc_content f) (fc_path f) (fc_lang f))
                                  fileContents st4 of
                             None \<Rightarrow> None
                           | Some st5 \<Rightarrow>
                               (let st6 = structureLinks st5
                                in Some \<lparr>nodes = mapValues (this_nodes st6), links = this_links st6\<rparr>)))))"

section \<open>The host's \<^verbatim>\<open>RegExp\<close> on the call patterns\<close>

text \<open>
  The pattern sources that \<^verbatim>\<open>extractCalls\<close> builds from names of letters, digits,
  \<^verbatim>\<open>_\<close>, \<^verbatim>\<open>$\<close> and \<^verbatim>\<open>.\<close>: the escapes \<^verbatim>\<open>\b\<close>, \<^verbatim>\<open>\s\<close> and \<^verbatim>\<open>\(\<close>, the star, the
  dot, the end anchor and word characters. Any other source is outside this fragment
  and has no value here.
\<close>

text \<open>What a star may follow: an atom that reads a character.\<close>

fun quantifiable :: "regex \<Rightarrow> bool" where
  "quantifiable (Lit a) = True"
| "quantifiable Dot = True"
| "quantifiable (OneOf cs) = True"
| "quantifiable (NoneOf cs) = True"
| "quantifiable r = False"

definition starred :: "regex list \<Rightarrow> regex list option" where
  "starred acc =
     (case acc of
        [] \<Rightarrow> None
      | a # acc' \<Rightarrow> if quantifiable a then Some (Star a # acc') else None)"

fun parseAtoms :: "string \<Rightarrow> regex list \<Rightarrow> regex list option" where
  "parseAtoms [] acc = Some (rev acc)"
| "parseAtoms [x] acc =
     (if x = CHR ''*'' then map_option rev (starred acc)
      else if x = CHR ''.'' then Some (rev (Dot # acc))
      else if x = CHR ''$'' then Some (rev (Eol # acc))
      else if isWordChar x then Some (rev (Lit x # acc))
      else None)"
| "parseAtoms (x # y # xs) acc =
     (if x = CHR 0x5C then
        (if y = CHR ''b'' then parseAtoms xs (WordB # acc)
         else if y = CHR ''s'' then parseAtoms xs (ws # acc)
         else if y = CHR ''('' then parseAtoms xs (Lit CHR ''('' # acc)
         else None)
      else if x = CHR ''*'' then
        (case starred acc of None \<Rightarrow> None | Some acc' \<Rightarrow> parseAtoms (y # xs) acc')
      else if x = CHR ''.'' then parseAtoms (y # xs) (Dot # acc)
      else if x = CHR ''$'' then parseAtoms (y # xs) (Eol # acc)
      else if isWordChar x then parseAtoms (y # xs) (Lit x # acc)
      else None)"

definition jsCallSites :: callSites where
  "jsCallSites source content =
     (case parseAtoms source [] of
        None \<Rightarrow> None
      | Some atoms \<Rightarrow> map_option (map m_index) (matchAll (seqs atoms) content))"

section \<open>Example projects\<close>

text \<open>
  \<^verbatim>\<open>a.ts\<close> imports \<^verbatim>\<open>helper\<close> from \<^verbatim>\<open>./b\<close> under the name \<^verbatim>\<open>h\<close> and calls it inside
  \<^verbatim>\<open>run\<close>; \<^verbatim>\<open>b.ts\<close> declares \<^verbatim>\<open>helper\<close>.
\<close>

definition a_ts :: string where
  "a_ts = ''import { helper as h } from '' @ [CHR 0x27] @ ''./b'' @ [CHR 0x27, CHR 0x0A] @
          ''function run() {'' @ [CHR 0x0A] @
          ''  h()'' @ [CHR 0x0A] @
          ''}''"

definition b_ts :: string where
  "b_ts = ''export function helper() {}''"

definition tsProject :: "File list" where
  "tsProject = [\<lparr>f_name = ''a.ts'', webkitRelativePath = None, f_text = Some a_ts\<rparr>,
                \<lparr>f_name = ''b.ts'', webkitRelativePath = None, f_text = Some b_ts\<rparr>]"

text \<open>The same call between two Rust files, and between two Python files.\<close>

definition a_rs :: string where
  "a_rs = ''fn run() {'' @ [CHR 0x0A] @ ''    helper();'' @ [CHR 0x0A] @ ''}''"

definition b_rs :: string where
  "b_rs = ''fn helper() {}''"

definition rustProject :: "File list" where
  "rustProject = [\<lparr>f_name = ''a.rs'', webkitRelativePath = None, f_text = Some a_rs\<rparr>,
                  \<lparr>f_name = ''b.rs'', webkitRelativePath = None, f_text = Some b_rs\<rparr>]"

definition a_py :: string where
  "a_py = ''def run():'' @ [CHR 0x0A] @ ''    helper()''"

definition b_py :: string where
  "b_py = ''def helper():'' @ [CHR 0x0A] @ ''    pass''"

definition pyProject :: "File list" where
  "pyProject = [\<lparr>f_name = ''a.py'', webkitRelativePath = None, f_text = Some a_py\<rparr>,
                \<lparr>f_name = ''b.py'', webkitRelativePath = None, f_text = Some b_py\<rparr>]"

text \<open>A class whose method holds an \<^verbatim>\<open>if\<close> statement.\<close>

definition foo_ts :: string where
  "foo_ts = ''class Foo {'' @ [CHR 0x0A] @
            ''  bar() {'' @ [CHR 0x0A] @
            ''    if (x) { }'' @ [CHR 0x0A] @
            ''  }'' @ [CHR 0x0A] @
            ''}''"

definition fooProject :: "File list" where
  "fooProject = [\<lparr>f_name = ''foo.ts'', webkitRelativePath = None, f_text = Some foo_ts\<rparr>]"

text \<open>The graph of the run on the TypeScript project.\<close>

definition runNode :: CodeNode where
  "runNode = \<lparr>n_id = ''a.ts:run'', n_name = ''run'', n_file = ''a.ts'', n_line = 2, n_size = 8,
               n_color = ''#00ff41'', n_language = ''typescript'', n_linesOfCode = 0,
               n_type = NFunction, n_isType = None, n_isLibrary = None\<rparr>"

definition helperNode :: CodeNode where
  "helperNode = \<lparr>n_id = ''b.ts:helper'', n_name = ''helper'', n_file = ''b.ts'', n_line = 1,
                  n_size = 8, n_color = ''#00ff41'', n_language = ''typescript'', n_linesOfCode = 0,
                  n_type = NFunction, n_isType = None, n_isLibrary = None\<rparr>"

definition fileNode :: "string \<Rightarrow> CodeNode" where
  "fileNode path = \<lparr>n_id = path, n_name = path, n_file = path, n_line = 0, n_size = 15,
                     n_color = ''#00ff41'', n_language = ''system'', n_linesOfCode = 0,
                     n_type = NFile, n_isType = None, n_isLibrary = None\<rparr>"

definition callLink :: "string \<Rightarrow> string \<Rightarrow> CodeLink" where
  "callLink a b = \<lparr>l_source = a, l_target = b, l_value = 1, l_type = Some LCall\<rparr>"

definition importLink :: "string \<Rightarrow> string \<Rightarrow> CodeLink" where
  "importLink a b = \<lparr>l_source = a, l_target = b, l_value = 3, l_type = Some LImport\<rparr>"

definition structureLink :: "string \<Rightarrow> string \<Rightarrow> CodeLink" where
  "structureLink a b = \<lparr>l_source = a, l_target = b, l_value = 2, l_type = Some LStructure\<rparr>"

definition tsGraph :: GraphData where
  "tsGraph =
     \<lparr>nodes = [fileNode ''a.ts'', fileNode ''b.ts'', runNode,
                helperNode\<lparr>n_size := 8 + 3 / 10\<rparr>],
      links = [importLink ''a.ts'' ''b.ts'', callLink ''a.ts:run'' ''b.ts:helper'',
               structureLink ''a.ts'' ''a.ts:run'', structureLink ''b.ts'' ''b.ts:helper'']\<rparr>"

text \<open>The entities of the Python project.\<close>

definition pyRun :: CodeNode where
  "pyRun = \<lparr>n_id = ''a.py:run'', n_name = ''run'', n_file = ''a.py'', n_line = 1, n_size = 8,
             n_color = ''#00ff41'', n_language = ''python'', n_linesOfCode = 0,
             n_type = NFunction, n_isType = None, n_isLibrary = None\<rparr>"

definition pyHelper :: CodeNode where
  "pyHelper = \<lparr>n_id = ''b.py:helper'', n_name = ''helper'', n_file = ''b.py'', n_line = 1, n_size = 8,
                n_color = ''#00ff41'', n_language = ''python'', n_linesOfCode = 0,
                n_type = NFunction, n_isType = None, n_isLibrary = None\<rparr>"

text \<open>What reading the Python project gives, and the graph of its run.\<close>

definition aPy :: FileContent where
  "aPy = \<lparr>fc_name = ''a.py'', fc_path = ''a.py'', fc_content = a_py, fc_lang = Python\<rparr>"

definition bPy :: FileContent where
  "bPy = \<lparr>fc_name = ''b.py'', fc_path = ''b.py'', fc_content = b_py, fc_lang = Python\<rparr>"

definition pyGraph :: GraphData where
  "pyGraph =
     \<lparr>nodes = [fileNode ''a.py'', fileNode ''b.py'', pyRun, pyHelper\<lparr>n_size := 8 + 3 / 10\<rparr>],
      links = [callLink ''a.py:run'' ''b.py:helper'',
               structureLink ''a.py'' ''a.py:run'', structureLink ''b.py'' ''b.py:helper'']\<rparr>"

text \<open>
  A class \<^verbatim>\<open>run\<close> with a method \<^verbatim>\<open>ts\<close> in \<^verbatim>\<open>a.ts\<close>, beside a file whose name is the id
  of that method.
\<close>

definition colonProject :: "File list" where
  "colonProject =
     [\<lparr>f_name = ''a.ts'', webkitRelativePath = None, f_text = Some ''class run { ts() {} }''\<rparr>,
      \<lparr>f_name = ''a.ts:run.ts'', webkitRelativePath = None, f_text = Some ''function x() {}''\<rparr>]"

text \<open>
  A file that calls \<^verbatim>\<open>helper\<close> on its first line and declares \<^verbatim>\<open>run\<close> on its third,
  with the nodes after extraction.
\<close>

definition early_ts :: string where
  "early_ts = ''helper()'' @ [CHR 0x0A, CHR 0x0A] @ ''function run() {}''"

definition earlyState :: CodeParser where
  "earlyState = cleared\<lparr>this_nodes := [(''a.ts'', fileNode ''a.ts''), (''b.ts'', fileNode ''b.ts''),
                                        (''a.ts:run'', runNode\<lparr>n_line := 3\<rparr>),
                                        (''b.ts:helper'', helperNode)]\<rparr>"

section \<open>Progress of the matcher\<close>

text \<open>Whether a pattern can match the empty string.\<close>

fun nullable :: "regex \<Rightarrow> bool" where
  "nullable Eps = True"
| "nullable (Lit a) = False"
| "nullable Dot = False"
| "nullable (OneOf cs) = False"
| "nullable (NoneOf cs) = False"
| "nullable WordB = True"
| "nullable Eol = True"
| "nullable (Seq r1 r2) = (nullable r1 \<and> nullable r2)"
| "nullable (Alt r1 r2) = (nullable r1 \<or> nullable r2)"
| "nullable (Star r) = True"
| "nullable (Cap n r) = nullable r"

text \<open>
  A result comes from the continuation, called on a shorter text at a later index
  (strictly later when \<open>strict\<close>), the index growing as the text shrinks.
\<close>

definition reaches :: "cont \<Rightarrow> nat \<times> caps \<Rightarrow> string \<Rightarrow> nat \<Rightarrow> bool \<Rightarrow> bool" where
  "reaches k res s i strict =
     (\<exists>p' s' i' c'. k p' s' i' c' = Some res \<and> (if strict then i < i' else i \<le> i') \<and>
        length s' + i' = length s + i)"

section \<open>Nodes up to their sizes\<close>

text \<open>The loop over the call sites changes the nodes in their sizes only.\<close>

definition unsized :: "CodeNode \<Rightarrow> CodeNode" where
  "unsized n = n\<lparr>n_size := 0\<rparr>"

section \<open>The enclosing entity, and the paths that have bindings\<close>

text \<open>
  The enclosing entity of a line in a file, where the line decides it: an entity of the
  file that is not a file node, declared at or before the line, and after every other
  such entity.
\<close>

definition enclosedBy :: "CodeNode list \<Rightarrow> string \<Rightarrow> nat \<Rightarrow> CodeNode \<Rightarrow> bool" where
  "enclosedBy ns path line s =
     (s \<in> set ns \<and> n_file s = path \<and> n_type s \<noteq> NFile \<and> n_line s \<le> line \<and>
      (\<forall>n \<in> set ns. n_file n = path \<and> n_type n \<noteq> NFile \<and> n_line n \<le> line \<and> n_id n \<noteq> n_id s
           \<longrightarrow> n_line n < n_line s))"

text \<open>The paths of the files whose imports are read: those of TypeScript and JavaScript.\<close>

definition scriptPaths :: "FileContent list \<Rightarrow> string list" where
  "scriptPaths fcs =
     map fc_path (filter (\<lambda>f. fc_lang f = Typescript \<or> fc_lang f = Javascript) fcs)"

section \<open>Invariants of a run\<close>

text \<open>
  The node map: keys without repetition, every node stored under its own id, the file of
  every entity that is not a file among the keys, a colon in the id of every such entity,
  and the language of a file node.
\<close>

definition nodeOK :: "string set \<Rightarrow> string \<times> CodeNode \<Rightarrow> bool" where
  "nodeOK K = (\<lambda>(k, n). n_id n = k \<and> (n_type n = NFile \<or> n_file n \<in> K) \<and>
                 (n_type n = NFile \<or> CHR '':'' \<in> set k) \<and>
                 (n_type n \<noteq> NFile \<or> n_language n = ''system''))"

definition nodesInv :: "(string \<times> CodeNode) list \<Rightarrow> bool" where
  "nodesInv m = (distinct (map fst m) \<and> list_all (nodeOK (fst ` set m)) m)"

text \<open>
  The links before the containment pass: no two with the same source and target, each a
  call between two different entities or an import.
\<close>

definition linkOK :: "CodeLink \<Rightarrow> bool" where
  "linkOK l = ((l_type l = Some LCall \<and> l_source l \<noteq> l_target l) \<or> l_type l = Some LImport)"

definition linksInv :: "CodeLink list \<Rightarrow> bool" where
  "linksInv ls = (distinct (map (\<lambda>l. (l_source l, l_target l)) ls) \<and> list_all linkOK ls)"

definition stInv :: "string set \<Rightarrow> CodeParser \<Rightarrow> bool" where
  "stInv paths st = (nodesInv (this_nodes st) \<and> linksInv (this_links st) \<and>
                     paths \<subseteq> fst ` set (this_nodes st))"

text \<open>
  The registry has entries for paths among \<open>R\<close> only, and every import link starts at
  one of them.
\<close>

definition impInv :: "string set \<Rightarrow> CodeParser \<Rightarrow> bool" where
  "impInv R st = (fst ` set (this_importRegistry st) \<subseteq> R \<and>
                  list_all (\<lambda>l. l_type l \<noteq> Some LImport \<or> l_source l \<in> R) (this_links st))"

text \<open>
  What the loops over the call sites keep: the registry, the nodes up to their sizes,
  and every link that is there.
\<close>

definition callsKeep :: "CodeParser \<Rightarrow> CodeParser \<Rightarrow> bool" where
  "callsKeep st st' =
     (this_importRegistry st' = this_importRegistry st \<and>
      map unsized (mapValues (this_nodes st')) = map unsized (mapValues (this_nodes st)) \<and>
      set (this_links st) \<subseteq> set (this_links st'))"

section \<open>Properties of the strings\<close>

lemma lineOf_pos: "0 < lineOf content idx"
proof -
  have "splitOn sep acc s \<noteq> []" for sep acc s
    by (induction s arbitrary: acc) auto
  then show ?thesis by (simp add: lineOf_def split_def)
qed

section \<open>The invariants are kept\<close>

lemma mapHas_iff: "mapHas k m \<longleftrightarrow> k \<in> fst ` set m"
  by (simp add: mapHas_def map_of_eq_None_iff)

lemma set_update_subset: "set (AList.update k v m) \<subseteq> insert (k, v) (set m)"
  by (induction m) auto

lemma keys_mapSet: "fst ` set (mapSet k v m) = insert k (fst ` set m)"
  by (simp add: mapSet_def dom_update)

lemma nodeOK_mono: "nodeOK K kn \<Longrightarrow> K \<subseteq> K' \<Longrightarrow> nodeOK K' kn"
  by (auto simp: nodeOK_def split: prod.splits)

lemma nodesInv_mapSet:
  assumes "nodesInv m" and "nodeOK (insert k (fst ` set m)) (k, v)"
  shows "nodesInv (mapSet k v m)"
proof -
  have d: "distinct (map fst (mapSet k v m))"
    using assms(1) by (simp add: nodesInv_def mapSet_def distinct_update)
  have "nodeOK (insert k (fst ` set m)) kn" if "kn \<in> set (mapSet k v m)" for kn
  proof -
    from that have "kn = (k, v) \<or> kn \<in> set m"
      using set_update_subset[of k v m] by (auto simp: mapSet_def)
    then show ?thesis
    proof
      assume "kn = (k, v)" then show ?thesis using assms(2) by simp
    next
      assume "kn \<in> set m"
      then have "nodeOK (fst ` set m) kn"
        using assms(1) by (simp add: nodesInv_def list_all_iff)
      then show ?thesis by (rule nodeOK_mono) auto
    qed
  qed
  then show ?thesis using d by (simp add: nodesInv_def list_all_iff keys_mapSet)
qed

lemma foldOpt_inv:
  assumes "foldOpt f xs s = Some s'" and "P s"
    and "\<And>x t t'. x \<in> set xs \<Longrightarrow> P t \<Longrightarrow> f x t = Some t' \<Longrightarrow> P t'"
  shows "P s'"
  using assms
proof (induction xs arbitrary: s)
  case Nil
  then show ?case by simp
next
  case (Cons x xs)
  then obtain t where t: "f x s = Some t" and r: "foldOpt f xs t = Some s'"
    by (auto split: option.splits)
  have "P t" using Cons.prems(2,3) t by auto
  then show ?case using Cons.IH[OF r] Cons.prems(3) by auto
qed

lemma fold_inv:
  assumes "P s" and "\<And>x t. x \<in> set xs \<Longrightarrow> P t \<Longrightarrow> P (f x t)"
  shows "P (fold f xs s)"
  using assms by (induction xs arbitrary: s) auto

lemma getFolderColor_nodes [simp]: "this_nodes (snd (getFolderColor path st)) = this_nodes st"
  by (simp add: getFolderColor_def Let_def)

lemma getFolderColor_links [simp]: "this_links (snd (getFolderColor path st)) = this_links st"
  by (simp add: getFolderColor_def Let_def)

lemma stInv_mapSet:
  assumes "stInv paths st" and "n_id v = k"
    and "n_type v = NFile \<or> n_file v \<in> insert k (fst ` set (this_nodes st))"
    and "n_type v = NFile \<or> CHR '':'' \<in> set k"
    and "n_type v \<noteq> NFile \<or> n_language v = ''system''"
  shows "stInv paths (st\<lparr>this_nodes := mapSet k v (this_nodes st)\<rparr>)"
  using assms nodesInv_mapSet[of "this_nodes st" k v]
  by (auto simp: stInv_def nodeOK_def keys_mapSet)

lemma fileStep_inv: "stInv paths st \<Longrightarrow> stInv (insert (fc_path f) paths) (fileStep f st)"
proof -
  assume a: "stInv paths st"
  obtain c st1 where g: "getFolderColor (fc_path f) st = (c, st1)" by (cases "getFolderColor (fc_path f) st")
  have n: "this_nodes st1 = this_nodes st" and l: "this_links st1 = this_links st"
    using getFolderColor_nodes[of "fc_path f" st] getFolderColor_links[of "fc_path f" st] g by simp_all
  have "stInv paths st1" using a n l by (simp add: stInv_def)
  then have "stInv paths (st1\<lparr>this_nodes := mapSet (fc_path f)
            \<lparr>n_id = fc_path f, n_name = fc_name f, n_file = fc_path f, n_line = 0, n_size = 15,
             n_color = c, n_language = ''system'', n_linesOfCode = 0, n_type = NFile,
             n_isType = None, n_isLibrary = None\<rparr> (this_nodes st1)\<rparr>)"
    by (rule stInv_mapSet) simp_all
  then show ?thesis using g by (auto simp: fileStep_def stInv_def keys_mapSet)
qed


lemma langTag_not_system: "langTag lang \<noteq> ''system''"
  by (cases lang) simp_all

lemma stInv_entity:
  assumes "stInv paths st" and "path \<in> fst ` set (this_nodes st)"
    and "n_id v = k" and "n_type v \<noteq> NFile" and "n_file v = path" and "CHR '':'' \<in> set k"
  shows "stInv paths (st\<lparr>this_nodes := mapSet k v (this_nodes st)\<rparr>) \<and>
         path \<in> fst ` set (this_nodes (st\<lparr>this_nodes := mapSet k v (this_nodes st)\<rparr>))"
proof -
  have "stInv paths (st\<lparr>this_nodes := mapSet k v (this_nodes st)\<rparr>)"
    by (rule stInv_mapSet) (use assms in auto)
  then show ?thesis using assms(2) by (simp add: keys_mapSet)
qed

lemma entityStep_inv:
  assumes "stInv paths st" and "path \<in> fst ` set (this_nodes st)"
  shows "stInv paths (entityStep content path lang c m st) \<and>
         path \<in> fst ` set (this_nodes (entityStep content path lang c m st))"
proof (cases "entityStep content path lang c m st = st")
  case True
  then show ?thesis using assms by simp
next
  case False
  then obtain k v where e: "entityStep content path lang c m st = st\<lparr>this_nodes := mapSet k v (this_nodes st)\<rparr>"
    and v: "n_id v = k" "n_type v \<noteq> NFile" "n_file v = path" "CHR '':'' \<in> set k"
    by (fastforce simp: entityStep_def generateId_def Let_def split: if_splits)
  show ?thesis unfolding e by (rule stInv_entity[OF assms v])
qed

lemma typeStep_inv:
  assumes "stInv paths st" and "path \<in> fst ` set (this_nodes st)"
  shows "stInv paths (typeStep content path m st) \<and>
         path \<in> fst ` set (this_nodes (typeStep content path m st))"
proof (cases "typeStep content path m st = st")
  case True
  then show ?thesis using assms by simp
next
  case False
  then obtain k v where e: "typeStep content path m st = st\<lparr>this_nodes := mapSet k v (this_nodes st)\<rparr>"
    and v: "n_id v = k" "n_type v \<noteq> NFile" "n_file v = path" "CHR '':'' \<in> set k"
    by (fastforce simp: typeStep_def Let_def split: if_splits)
  show ?thesis unfolding e by (rule stInv_entity[OF assms v])
qed

lemma methodStep_inv:
  assumes "stInv paths st" and "path \<in> fst ` set (this_nodes st)"
    and "methodStep content path lang c cn ci m (st, cm) = (st', cm')"
  shows "stInv paths st' \<and> path \<in> fst ` set (this_nodes st')"
proof -
  from assms(3) obtain k v where e: "st' = st\<lparr>this_nodes := mapSet k v (this_nodes st)\<rparr>"
    and v: "n_id v = k" "n_type v \<noteq> NFile" "n_file v = path" "CHR '':'' \<in> set k"
    by (fastforce simp: methodStep_def Let_def)
  show ?thesis unfolding e by (rule stInv_entity[OF assms(1,2) v])
qed

lemma fold_methodStep_inv:
  assumes "stInv paths st" and "path \<in> fst ` set (this_nodes st)"
  shows "stInv paths (fst (fold (methodStep content path lang c cn ci) ms (st, cm))) \<and>
         path \<in> fst ` set (this_nodes (fst (fold (methodStep content path lang c cn ci) ms (st, cm))))"
  using assms
proof (induction ms arbitrary: st cm)
  case Nil
  then show ?case by simp
next
  case (Cons m ms)
  obtain st1 cm1 where s: "methodStep content path lang c cn ci m (st, cm) = (st1, cm1)"
    by (cases "methodStep content path lang c cn ci m (st, cm)")
  from methodStep_inv[OF Cons.prems s] Cons.prems(2)
  have "stInv paths st1" and "path \<in> fst ` set (this_nodes st1)" by auto
  from Cons.IH[OF this] show ?case by (simp add: s)
qed

lemma classStep_inv:
  assumes "stInv paths st" and "path \<in> fst ` set (this_nodes st)"
    and "classStep content path lang c m st = Some st'"
  shows "stInv paths st' \<and> path \<in> fst ` set (this_nodes st')"
proof -
  define cn where "cn = templ (capture m 1)"
  define ci where "ci = m_index m"
  define cc where "cc = substring content ci (snd (scanBraces content (1, ci + length (m_text m))))"
  from assms(3) obtain ms where ms: "matchAll methodPattern cc = Some ms"
    by (auto simp: classStep_def Let_def cn_def ci_def cc_def simp del: scanBraces.simps
             split: option.splits)
  obtain st1 cm where f: "fold (methodStep content path lang c cn ci) ms (st, []) = (st1, cm)"
    by (cases "fold (methodStep content path lang c cn ci) ms (st, [])")
  have "this_nodes st' = this_nodes st1 \<and> this_links st' = this_links st1"
    using assms(3) ms f
    by (auto simp: classStep_def Let_def cn_def ci_def cc_def simp del: scanBraces.simps
             split: option.splits)
  with fold_methodStep_inv[OF assms(1,2), of content lang c cn ci ms "[]"] f
  show ?thesis by (simp add: stInv_def)
qed

lemma extractClassMethods_inv:
  assumes "stInv paths st" and "path \<in> fst ` set (this_nodes st)"
    and "extractClassMethods content path lang c st = Some st'"
  shows "stInv paths st' \<and> path \<in> fst ` set (this_nodes st')"
proof -
  from assms(3) obtain cs where f: "foldOpt (classStep content path lang c) cs st = Some st'"
    by (auto simp: extractClassMethods_def split: option.splits)
  show ?thesis
  proof (rule foldOpt_inv[OF f, where P = "\<lambda>t. stInv paths t \<and> path \<in> fst ` set (this_nodes t)"])
    show "stInv paths st \<and> path \<in> fst ` set (this_nodes st)"
      using assms(1,2) by simp
  next
    fix x t t'
    assume "stInv paths t \<and> path \<in> fst ` set (this_nodes t)"
      and "classStep content path lang c x t = Some t'"
    then show "stInv paths t' \<and> path \<in> fst ` set (this_nodes t')"
      using classStep_inv[of paths t path content lang c x t'] by simp
  qed
qed

lemma extractTypeScriptTypes_inv:
  assumes "stInv paths st" and "path \<in> fst ` set (this_nodes st)"
    and "extractTypeScriptTypes content path c st = Some st'"
  shows "stInv paths st' \<and> path \<in> fst ` set (this_nodes st')"
proof -
  from assms(3) obtain ms where f: "st' = fold (typeStep content path) ms st"
    by (auto simp: extractTypeScriptTypes_def split: option.splits)
  show ?thesis unfolding f
  proof (rule fold_inv[where P = "\<lambda>t. stInv paths t \<and> path \<in> fst ` set (this_nodes t)"])
    show "stInv paths st \<and> path \<in> fst ` set (this_nodes st)"
      using assms(1,2) by simp
  next
    fix x t
    assume "stInv paths t \<and> path \<in> fst ` set (this_nodes t)"
    then show "stInv paths (typeStep content path x t) \<and>
               path \<in> fst ` set (this_nodes (typeStep content path x t))"
      using typeStep_inv[of paths t path content x] by simp
  qed
qed

lemma fold_entityStep_inv:
  assumes "stInv paths st" and "path \<in> fst ` set (this_nodes st)"
  shows "stInv paths (fold (entityStep content path lang c) ms st) \<and>
         path \<in> fst ` set (this_nodes (fold (entityStep content path lang c) ms st))"
proof (rule fold_inv[where P = "\<lambda>t. stInv paths t \<and> path \<in> fst ` set (this_nodes t)"])
  show "stInv paths st \<and> path \<in> fst ` set (this_nodes st)"
    using assms by simp
next
  fix x t
  assume "stInv paths t \<and> path \<in> fst ` set (this_nodes t)"
  then show "stInv paths (entityStep content path lang c x t) \<and>
             path \<in> fst ` set (this_nodes (entityStep content path lang c x t))"
    using entityStep_inv[of paths t path content lang c x] by simp
qed

lemma extractFunctions_inv:
  assumes "stInv paths st" and "path \<in> fst ` set (this_nodes st)"
    and "extractFunctions content path lang c st = Some st'"
  shows "stInv paths st' \<and> path \<in> fst ` set (this_nodes st')"
proof (cases "patterns lang")
  case None
  then show ?thesis using assms by (simp add: extractFunctions_def)
next
  case (Some regex)
  then obtain ms where "st' = fold (entityStep content path lang c) ms st"
    using assms(3) by (auto simp: extractFunctions_def split: option.splits)
  then show ?thesis using fold_entityStep_inv[OF assms(1,2)] by simp
qed

lemma extractEntities_inv:
  assumes "stInv paths st" and "path \<in> fst ` set (this_nodes st)"
    and "extractEntities content path lang st = Some st'"
  shows "stInv paths st' \<and> path \<in> fst ` set (this_nodes st')"
proof -
  obtain c st1 where g: "getFolderColor path st = (c, st1)" by (cases "getFolderColor path st")
  have n: "this_nodes st1 = this_nodes st" and l: "this_links st1 = this_links st"
    using getFolderColor_nodes[of path st] getFolderColor_links[of path st] g by simp_all
  have i1: "stInv paths st1" "path \<in> fst ` set (this_nodes st1)"
    using assms(1,2) n l by (simp_all add: stInv_def)
  from assms(3) g obtain st2 where
    s2: "extractFunctions content path lang c st1 = Some st2"
    and rest: "(if lang = Typescript \<or> lang = Javascript then
               (case extractClassMethods content path lang c st2 of
                  None \<Rightarrow> None
                | Some st3 \<Rightarrow>
                    if lang = Typescript then extractTypeScriptTypes content path c st3
                    else Some st3)
             else Some st2) = Some st'"
    by (simp add: extractEntities_def split: option.splits)
  have i2: "stInv paths st2 \<and> path \<in> fst ` set (this_nodes st2)"
    using extractFunctions_inv[OF i1 s2] .
  show ?thesis
  proof (cases "lang = Typescript \<or> lang = Javascript")
    case False
    then show ?thesis using rest i2 by simp
  next
    case True
    then obtain st3 where c3: "extractClassMethods content path lang c st2 = Some st3"
      and r3: "(if lang = Typescript then extractTypeScriptTypes content path c st3 else Some st3) = Some st'"
      using rest by (auto split: option.splits)
    have i3: "stInv paths st3 \<and> path \<in> fst ` set (this_nodes st3)"
      using extractClassMethods_inv[OF _ _ c3] i2 by blast
    show ?thesis
    proof (cases "lang = Typescript")
      case True
      then show ?thesis
        using r3 i3 extractTypeScriptTypes_inv[of paths st3 path content c st'] by simp
    next
      case False
      then show ?thesis using r3 i3 by simp
    qed
  qed
qed

lemma stInv_cleared: "stInv {} cleared"
  by (simp add: stInv_def cleared_def nodesInv_def linksInv_def)

lemma fold_fileStep_inv:
  "stInv paths st \<Longrightarrow> stInv (paths \<union> fc_path ` set fcs) (fold fileStep fcs st)"
proof (induction fcs arbitrary: paths st)
  case Nil
  then show ?case by simp
next
  case (Cons f fcs)
  have "stInv (insert (fc_path f) paths) (fileStep f st)"
    using Cons.prems by (rule fileStep_inv)
  from Cons.IH[OF this] show ?case by simp
qed

lemma foldOpt_extractEntities_inv:
  assumes "foldOpt (\<lambda>f. extractEntities (fc_content f) (fc_path f) (fc_lang f)) fcs st = Some st'"
    and "stInv paths st" and "fc_path ` set fcs \<subseteq> paths"
  shows "stInv paths st'"
proof (rule foldOpt_inv[OF assms(1), where P = "stInv paths"])
  show "stInv paths st" by (rule assms(2))
next
  fix x t t'
  assume x: "x \<in> set fcs" and t: "stInv paths t"
    and e: "extractEntities (fc_content x) (fc_path x) (fc_lang x) t = Some t'"
  have "fc_path x \<in> fst ` set (this_nodes t)"
    using x t assms(3) by (auto simp: stInv_def)
  from extractEntities_inv[OF t this e] show "stInv paths t'" by simp
qed

lemma extractImports_inv:
  assumes "extractImports content path lang st = Some st'" and "stInv paths st"
  shows "stInv paths st'"
proof -
  have "this_nodes st' = this_nodes st \<and> this_links st' = this_links st"
    using assms(1) by (auto simp: extractImports_def split: if_splits option.splits)
  then show ?thesis using assms(2) by (simp add: stInv_def)
qed

lemma foldOpt_extractImports_inv:
  assumes "foldOpt (\<lambda>f. extractImports (fc_content f) (fc_path f) (fc_lang f)) fcs st = Some st'"
    and "stInv paths st"
  shows "stInv paths st'"
proof (rule foldOpt_inv[OF assms(1), where P = "stInv paths"])
  show "stInv paths st" by (rule assms(2))
next
  fix x t t'
  assume "stInv paths t" and "extractImports (fc_content x) (fc_path x) (fc_lang x) t = Some t'"
  then show "stInv paths t'" using extractImports_inv by blast
qed

lemma existingLink_iff:
  "existingLink a b ls \<longleftrightarrow> (a, b) \<in> set (map (\<lambda>l. (l_source l, l_target l)) ls)"
  by (auto simp: existingLink_def list_ex_iff)

lemma linksInv_append:
  assumes "linksInv ls" and "\<not> existingLink (l_source l) (l_target l) ls" and "linkOK l"
  shows "linksInv (ls @ [l])"
  using assms by (simp add: linksInv_def existingLink_iff)

lemma stInv_push:
  assumes "stInv paths st" and "\<not> existingLink (l_source l) (l_target l) (this_links st)"
    and "linkOK l"
  shows "stInv paths (st\<lparr>this_links := this_links st @ [l]\<rparr>)"
  using assms linksInv_append[of "this_links st" l] by (simp add: stInv_def)

lemma importLinkStep_inv:
  assumes "stInv paths st"
  shows "stInv paths (importLinkStep importingFile b st)"
proof (cases "importLinkStep importingFile b st = st")
  case True
  then show ?thesis using assms by simp
next
  case False
  then obtain l where e: "importLinkStep importingFile b st = st\<lparr>this_links := this_links st @ [l]\<rparr>"
    and l: "\<not> existingLink (l_source l) (l_target l) (this_links st)" "linkOK l"
    by (cases b) (fastforce simp: importLinkStep_def Let_def linkOK_def split: option.splits if_splits)
  show ?thesis unfolding e by (rule stInv_push[OF assms l])
qed

lemma createFileImportLinks_inv:
  assumes "stInv paths st"
  shows "stInv paths (createFileImportLinks filePaths st)"
  unfolding createFileImportLinks_def
proof (rule fold_inv[where P = "stInv paths"])
  show "stInv paths st" by (rule assms)
next
  fix x :: "string \<times> (string \<times> ImportMeta) list" and t :: CodeParser
  assume t: "stInv paths t"
  obtain importingFile imps where x: "x = (importingFile, imps)" by (cases x)
  have "stInv paths (fold (importLinkStep importingFile) imps t)"
  proof (rule fold_inv[where P = "stInv paths"])
    show "stInv paths t" by (rule t)
  next
    fix y u
    assume "stInv paths u"
    then show "stInv paths (importLinkStep importingFile y u)" by (rule importLinkStep_inv)
  qed
  then show "stInv paths
          ((case x of (importingFile, imports) \<Rightarrow> \<lambda>st'.
               if \<not> mapHas importingFile (this_nodes st') then st'
               else fold (importLinkStep importingFile) imports st') t)"
    using t x by simp
qed

lemma stInv_resize:
  assumes "stInv paths st" and "mapGet k (this_nodes st) = Some node"
  shows "stInv paths (st\<lparr>this_nodes := mapSet k (node\<lparr>n_size := z\<rparr>) (this_nodes st)\<rparr>)"
proof -
  have "(k, node) \<in> set (this_nodes st)"
    using assms(2) by (simp add: mapGet_def map_of_SomeD)
  then have ok: "nodeOK (fst ` set (this_nodes st)) (k, node)"
    using assms(1) by (auto simp: stInv_def nodesInv_def list_all_iff)
  show ?thesis
    by (rule stInv_mapSet[OF assms(1)]) (use ok in \<open>auto simp: nodeOK_def\<close>)
qed

lemma callStep_inv:
  assumes "stInv paths st"
  shows "stInv paths (callStep content path targetNode idx st)"
proof (cases "findEnclosingEntity st path (lineOf content idx)")
  case None
  then show ?thesis using assms by (simp add: callStep_def)
next
  case (Some sourceNode)
  let ?l = "\<lparr>l_source = n_id sourceNode, l_target = n_id targetNode, l_value = 1, l_type = Some LCall\<rparr>"
  let ?st1 = "st\<lparr>this_links := this_links st @ [?l]\<rparr>"
  show ?thesis
  proof (cases "n_id sourceNode \<noteq> n_id targetNode \<and>
                \<not> existingLink (n_id sourceNode) (n_id targetNode) (this_links st)")
    case False
    then show ?thesis using assms Some by (auto simp: callStep_def)
  next
    case True
    have i1: "stInv paths ?st1"
      by (rule stInv_push[OF assms]) (use True in \<open>simp_all add: linkOK_def\<close>)
    show ?thesis
    proof (cases "mapGet (n_id targetNode) (this_nodes ?st1)")
      case None
      then show ?thesis using i1 Some True by (simp add: callStep_def)
    next
      case (Some node)
      from stInv_resize[OF i1 Some, of "n_size node + 3 / 10"]
      show ?thesis using \<open>findEnclosingEntity st path (lineOf content idx) = Some sourceNode\<close> True Some
        by (simp add: callStep_def)
    qed
  qed
qed

lemma targetStep_inv:
  assumes "targetStep callSites content path lang fileImports targetNode st = Some st'"
    and "stInv paths st"
  shows "stInv paths st'"
proof (cases "st' = st")
  case True
  then show ?thesis using assms(2) by simp
next
  case False
  then obtain idxs where "st' = fold (callStep content path targetNode) idxs st"
    using assms(1)
    by (auto simp: targetStep_def Let_def split: if_splits prod.splits option.splits)
  moreover have "stInv paths (fold (callStep content path targetNode) idxs st)"
  proof (rule fold_inv[where P = "stInv paths"])
    show "stInv paths st" by (rule assms(2))
  next
    fix x t
    assume "stInv paths t"
    then show "stInv paths (callStep content path targetNode x t)" by (rule callStep_inv)
  qed
  ultimately show ?thesis by simp
qed

lemma extractCalls_inv:
  assumes "extractCalls callSites content path lang st = Some st'" and "stInv paths st"
  shows "stInv paths st'"
proof -
  from assms(1) have f: "foldOpt (targetStep callSites content path lang (mapGet path (this_importRegistry st)))
           (mapValues (this_nodes st)) st = Some st'"
    by (simp add: extractCalls_def Let_def)
  show ?thesis
  proof (rule foldOpt_inv[OF f, where P = "stInv paths"])
    show "stInv paths st" by (rule assms(2))
  next
    fix x t t'
    assume "stInv paths t"
      and "targetStep callSites content path lang (mapGet path (this_importRegistry st)) x t = Some t'"
    then show "stInv paths t'" using targetStep_inv by blast
  qed
qed

lemma foldOpt_extractCalls_inv:
  assumes "foldOpt (\<lambda>f. extractCalls callSites (fc_content f) (fc_path f) (fc_lang f)) fcs st = Some st'"
    and "stInv paths st"
  shows "stInv paths st'"
proof (rule foldOpt_inv[OF assms(1), where P = "stInv paths"])
  show "stInv paths st" by (rule assms(2))
next
  fix x t t'
  assume "stInv paths t" and "extractCalls callSites (fc_content x) (fc_path x) (fc_lang x) t = Some t'"
  then show "stInv paths t'" using extractCalls_inv by blast
qed

text \<open>The state before the containment pass of a run that returns.\<close>

lemma analyzeFiles_inv:
  assumes "analyzeFiles callSites files mainLanguage = Some g"
  shows "\<exists>st paths. stInv paths st \<and>
           g = \<lparr>nodes = mapValues (this_nodes (structureLinks st)), links = this_links (structureLinks st)\<rparr>"
proof -
  from assms obtain fcs st2 st3 st5 where
    e2: "foldOpt (\<lambda>f. extractEntities (fc_content f) (fc_path f) (fc_lang f)) fcs (fold fileStep fcs cleared) = Some st2"
    and e3: "foldOpt (\<lambda>f. extractImports (fc_content f) (fc_path f) (fc_lang f)) fcs st2 = Some st3"
    and e5: "foldOpt (\<lambda>f. extractCalls callSites (fc_content f) (fc_path f) (fc_lang f)) fcs
               (createFileImportLinks (map fc_path fcs) st3) = Some st5"
    and g: "g = \<lparr>nodes = mapValues (this_nodes (structureLinks st5)), links = this_links (structureLinks st5)\<rparr>"
    by (auto simp: analyzeFiles_def Let_def split: option.splits)
  have "stInv ({} \<union> fc_path ` set fcs) (fold fileStep fcs cleared)"
    by (rule fold_fileStep_inv[OF stInv_cleared])
  then have "stInv (fc_path ` set fcs) st2"
    using foldOpt_extractEntities_inv[OF e2] by simp
  then have "stInv (fc_path ` set fcs) st3"
    by (rule foldOpt_extractImports_inv[OF e3])
  then have "stInv (fc_path ` set fcs) (createFileImportLinks (map fc_path fcs) st3)"
    by (rule createFileImportLinks_inv)
  then have "stInv (fc_path ` set fcs) st5"
    by (rule foldOpt_extractCalls_inv[OF e5])
  then show ?thesis using g by blast
qed

lemma distinct_map_finer:
  assumes "distinct (map f xs)" and "\<And>x y. g x = g y \<Longrightarrow> f x = f y"
  shows "distinct (map g xs)"
proof -
  from assms(1) have d: "distinct xs" and i: "inj_on f (set xs)"
    by (simp_all add: distinct_map)
  have "inj_on g (set xs)"
    by (rule inj_onI) (use i assms(2) in \<open>auto dest: inj_onD\<close>)
  with d show ?thesis by (simp add: distinct_map)
qed

lemma nodesInv_ids:
  assumes "nodesInv m"
  shows "map n_id (mapValues m) = map fst m"
  using assms by (auto simp: nodesInv_def mapValues_def list_all_iff nodeOK_def)

lemma structureLinks_nodes [simp]: "this_nodes (structureLinks st) = this_nodes st"
  by (simp add: structureLinks_def)

lemma edge_uniqueness_state:
  assumes "stInv paths st"
  shows "distinct (map (\<lambda>l. (l_type l, l_source l, l_target l)) (this_links (structureLinks st)))"
proof -
  let ?key = "\<lambda>l. (l_type l, l_source l, l_target l)"
  let ?ns = "filter (\<lambda>node. n_type node \<noteq> NFile \<and> mapHas (n_file node) (this_nodes st))
               (mapValues (this_nodes st))"
  let ?mk = "\<lambda>node. \<lparr>l_source = n_file node, l_target = n_id node, l_value = 2,
                      l_type = Some LStructure\<rparr>"
  from assms have li: "linksInv (this_links st)" and ni: "nodesInv (this_nodes st)"
    by (simp_all add: stInv_def)
  have d1: "distinct (map ?key (this_links st))"
    by (rule distinct_map_finer[where f = "\<lambda>l. (l_source l, l_target l)"])
       (use li in \<open>simp_all add: linksInv_def\<close>)
  have "distinct (map n_id (mapValues (this_nodes st)))"
    using ni nodesInv_ids[OF ni] by (simp add: nodesInv_def)
  then have "distinct (map n_id ?ns)"
    by (rule distinct_map_filter)
  then have "distinct (map (\<lambda>n. (Some LStructure, n_file n, n_id n)) ?ns)"
    by (rule distinct_map_finer) simp
  then have d2: "distinct (map ?key (map ?mk ?ns))"
    by (simp add: comp_def)
  have "l_type l \<noteq> Some LStructure" if "l \<in> set (this_links st)" for l
    using li that by (auto simp: linksInv_def list_all_iff linkOK_def)
  then have d3: "set (map ?key (this_links st)) \<inter> set (map ?key (map ?mk ?ns)) = {}"
    by auto
  have "this_links (structureLinks st) = this_links st @ map ?mk ?ns"
    by (simp add: structureLinks_def)
  then show ?thesis using d1 d2 d3 by (simp only: map_append distinct_append simp_thms)
qed

section \<open>The loops over the patterns of the code end\<close>

lemma reaches_weaken: "reaches k res s i strict \<Longrightarrow> reaches k res s i False"
  by (auto simp: reaches_def split: if_splits intro: less_imp_le)

lemma reaches_trans:
  assumes "reaches (\<lambda>p' s' i' c'. f p' s' i' c') res s i a"
    and "\<And>p' s' i' c'. f p' s' i' c' = Some res \<Longrightarrow> reaches k res s' i' b"
  shows "reaches k res s i (a \<or> b)"
proof -
  from assms(1) obtain p1 s1 i1 c1 where 1: "f p1 s1 i1 c1 = Some res"
    and a: "if a then i < i1 else i \<le> i1" and l1: "length s1 + i1 = length s + i"
    by (auto simp: reaches_def)
  from assms(2)[OF 1] obtain p2 s2 i2 c2 where 2: "k p2 s2 i2 c2 = Some res"
    and b: "if b then i1 < i2 else i1 \<le> i2" and l2: "length s2 + i2 = length s1 + i1"
    by (auto simp: reaches_def)
  have "if a \<or> b then i < i2 else i \<le> i2"
    using a b by (auto split: if_splits)
  moreover have "length s2 + i2 = length s + i" using l1 l2 by simp
  ultimately show ?thesis using 2 unfolding reaches_def by blast
qed

lemma oneChar_reaches:
  assumes "oneChar P p s i c k = Some res"
  shows "reaches k res s i True"
proof (cases s)
  case Nil
  then show ?thesis using assms by (simp add: oneChar_def)
next
  case (Cons x xs)
  then have "k (Some x) xs (Suc i) c = Some res"
    using assms by (simp add: oneChar_def split: if_splits)
  then show ?thesis unfolding reaches_def using Cons
    by (intro exI[of _ "Some x"] exI[of _ xs] exI[of _ "Suc i"] exI[of _ c]) simp
qed

lemma reaches_here: "k p s i c = Some res \<Longrightarrow> reaches k res s i False"
  unfolding reaches_def by (intro exI[of _ p] exI[of _ s] exI[of _ i] exI[of _ c]) simp

lemma star_iter_reaches:
  assumes m: "\<And>p s i c k. m p s i c k = Some res \<Longrightarrow> reaches k res s i False"
    and "star_iter n m p s i c k = Some res"
  shows "reaches k res s i False"
  using assms(2)
proof (induction n arbitrary: p s i c)
  case 0
  then show ?case by (simp add: reaches_here)
next
  case (Suc n)
  let ?k1 = "\<lambda>p' s' i' c'. if i < i' then star_iter n m p' s' i' c' k else None"
  show ?case
  proof (cases "m p s i c ?k1")
    case None
    then show ?thesis using Suc.prems by (simp add: reaches_here)
  next
    case (Some r)
    then have "r = res" using Suc.prems by simp
    with Some have "reaches ?k1 res s i False" using m by blast
    then have "reaches k res s i (False \<or> False)"
    proof (rule reaches_trans)
      fix p' s' i' c'
      assume "(if i < i' then star_iter n m p' s' i' c' k else None) = Some res"
      then have "star_iter n m p' s' i' c' k = Some res" by (simp split: if_splits)
      then show "reaches k res s' i' False" by (rule Suc.IH)
    qed
    then show ?thesis by simp
  qed
qed

lemma rmatch_reaches:
  "rmatch r p s i c k = Some res \<Longrightarrow> reaches k res s i (\<not> nullable r)"
proof (induction r arbitrary: p s i c k)
  case Eps
  then show ?case by (simp add: reaches_here)
next
  case (Lit a)
  then show ?case by (simp add: oneChar_reaches)
next
  case Dot
  then show ?case by (simp add: oneChar_reaches)
next
  case (OneOf cs)
  then show ?case by (simp add: oneChar_reaches)
next
  case (NoneOf cs)
  then show ?case by (simp add: oneChar_reaches)
next
  case WordB
  then show ?case by (simp add: reaches_here split: if_splits)
next
  case Eol
  then show ?case by (simp add: reaches_here split: if_splits)
next
  case (Seq r1 r2)
  from Seq.prems have "rmatch r1 p s i c (\<lambda>p' s' i' c'. rmatch r2 p' s' i' c' k) = Some res"
    by simp
  then have "reaches (\<lambda>p' s' i' c'. rmatch r2 p' s' i' c' k) res s i (\<not> nullable r1)"
    by (rule Seq.IH(1))
  then have "reaches k res s i (\<not> nullable r1 \<or> \<not> nullable r2)"
    by (rule reaches_trans) (rule Seq.IH(2))
  then show ?case by simp
next
  case (Alt r1 r2)
  show ?case
  proof (cases "rmatch r1 p s i c k")
    case None
    then have "rmatch r2 p s i c k = Some res" using Alt.prems by simp
    from Alt.IH(2)[OF this] show ?thesis
      by (cases "nullable r1") (auto dest: reaches_weaken)
  next
    case (Some r)
    then have "rmatch r1 p s i c k = Some res" using Alt.prems by simp
    from Alt.IH(1)[OF this] show ?thesis
      by (cases "nullable r2") (auto dest: reaches_weaken)
  qed
next
  case (Star r)
  have "reaches k res s i False"
  proof (rule star_iter_reaches[where m = "rmatch r" and n = "length s" and p = p and c = c])
    fix p s i c k
    assume "rmatch r p s i c k = Some res"
    then show "reaches k res s i False" using Star.IH reaches_weaken by blast
  next
    show "star_iter (length s) (rmatch r) p s i c k = Some res" using Star.prems by simp
  qed
  then show ?case by simp
next
  case (Cap n r)
  from Cap.prems
  have "rmatch r p s i c (\<lambda>p' s' i' c'. k p' s' i' ((n, take (i' - i) s) # c')) = Some res"
    by simp
  from Cap.IH[OF this] obtain p' s' i' c' where
    "k p' s' i' ((n, take (i' - i) s) # c') = Some res"
    "if \<not> nullable r then i < i' else i \<le> i'" "length s' + i' = length s + i"
    unfolding reaches_def by blast
  then show ?case unfolding reaches_def nullable.simps by blast
qed

lemma matchHere_nonempty:
  assumes "\<not> nullable r" and "matchHere r p s i = Some m"
  shows "m_text m \<noteq> []"
proof -
  from assms(2) obtain e c where r: "rmatch r p s i [] (\<lambda>p' s' i' c'. Some (i', c')) = Some (e, c)"
    and m: "m = \<lparr>m_index = i, m_text = take (e - i) s, m_groups = c\<rparr>"
    by (auto simp: matchHere_def split: option.splits)
  from rmatch_reaches[OF r] assms(1) obtain s' :: string where "i < e" "length s' + e = length s + i"
    by (auto simp: reaches_def)
  then have "0 < e - i" and "s \<noteq> []" by auto
  then show ?thesis using m by (cases s) auto
qed

lemma execLoop_returns:
  "\<not> nullable r \<Longrightarrow> \<exists>ms. execLoop r p s i = Some ms"
proof (induction r p s i rule: execLoop.induct)
  case (1 r p i)
  show ?case
  proof (cases "matchHere r p [] i")
    case None
    then show ?thesis by simp
  next
    case (Some m)
    have "m_text m = []" using Some by (auto simp: matchHere_def split: option.splits)
    then show ?thesis using matchHere_nonempty[OF "1.prems" Some] by simp
  qed
next
  case (2 r p x xs i)
  show ?case
  proof (cases "matchHere r p (x # xs) i")
    case None
    then show ?thesis using "2.IH"(1)[OF None "2.prems"] by simp
  next
    case (Some m)
    have ne: "m_text m \<noteq> []" by (rule matchHere_nonempty[OF "2.prems" Some])
    from "2.IH"(2)[OF Some ne "2.prems"] obtain ms where
      "execLoop r (Some (last (m_text m))) (drop (length (m_text m)) (x # xs)) (i + length (m_text m)) = Some ms"
      by blast
    then show ?thesis using Some ne by simp
  qed
qed

lemma matchAll_returns: "\<not> nullable r \<Longrightarrow> \<exists>ms. matchAll r s = Some ms"
  by (simp add: matchAll_def execLoop_returns)

lemma nullable_seqs [simp]: "nullable (seqs rs) = list_all nullable rs"
  by (induction rs) (simp_all add: seqs_def)

lemma nullable_lits [simp]: "nullable (lits s) = (s = [])"
  by (cases s) (simp_all add: lits_def)

lemma nullable_rplus [simp]: "nullable (rplus r) = nullable r"
  by (simp add: rplus_def)

lemma patterns_not_nullable:
  "\<not> nullable rustPattern" "\<not> nullable scriptPattern" "\<not> nullable pythonPattern"
  "\<not> nullable interfacePattern" "\<not> nullable classPattern" "\<not> nullable methodPattern"
  "\<not> nullable importRegex"
  by (simp_all add: rustPattern_def scriptPattern_def pythonPattern_def interfacePattern_def
        classPattern_def methodPattern_def importRegex_def)

lemma foldOpt_returns:
  assumes "\<And>x s. \<exists>s'. f x s = Some s'"
  shows "\<exists>s'. foldOpt f xs s = Some s'"
proof (induction xs arbitrary: s)
  case Nil
  then show ?case by simp
next
  case (Cons x xs)
  from assms obtain t where "f x s = Some t" by blast
  then show ?case using Cons.IH[of t] by simp
qed

lemma classStep_returns: "\<exists>st'. classStep content path lang c m st = Some st'"
proof -
  obtain ms where "matchAll methodPattern
      (substring content (m_index m) (snd (scanBraces content (1, m_index m + length (m_text m))))) = Some ms"
    using matchAll_returns[OF patterns_not_nullable(6)] by blast
  then show ?thesis
    by (simp add: classStep_def Let_def split: prod.splits option.splits del: scanBraces.simps)
qed

lemma extractClassMethods_returns: "\<exists>st'. extractClassMethods content path lang c st = Some st'"
proof -
  obtain cs where "matchAll classPattern content = Some cs"
    using matchAll_returns[OF patterns_not_nullable(5)] by blast
  then show ?thesis
    using foldOpt_returns[of "classStep content path lang c" cs st, OF classStep_returns]
    by (simp add: extractClassMethods_def)
qed

lemma extractFunctions_returns: "\<exists>st'. extractFunctions content path lang c st = Some st'"
proof (cases "patterns lang")
  case None
  then show ?thesis by (simp add: extractFunctions_def)
next
  case (Some regex)
  then have "\<not> nullable regex" using patterns_not_nullable(1-3) by (cases lang) auto
  then obtain ms where "matchAll regex content = Some ms" using matchAll_returns by blast
  then show ?thesis using Some by (simp add: extractFunctions_def)
qed

lemma extractTypeScriptTypes_returns: "\<exists>st'. extractTypeScriptTypes content path c st = Some st'"
proof -
  obtain ms where "matchAll interfacePattern content = Some ms"
    using matchAll_returns[OF patterns_not_nullable(4)] by blast
  then show ?thesis by (simp add: extractTypeScriptTypes_def)
qed

lemma extractEntities_returns: "\<exists>st'. extractEntities content path lang st = Some st'"
proof -
  obtain c st1 where g: "getFolderColor path st = (c, st1)" by (cases "getFolderColor path st")
  obtain st2 where 2: "extractFunctions content path lang c st1 = Some st2"
    using extractFunctions_returns by blast
  obtain st3 where 3: "extractClassMethods content path lang c st2 = Some st3"
    using extractClassMethods_returns by blast
  obtain st4 where 4: "extractTypeScriptTypes content path c st3 = Some st4"
    using extractTypeScriptTypes_returns by blast
  show ?thesis using g 2 3 4 by (simp add: extractEntities_def)
qed

lemma scanBraces_while:
  "while_option (braceCond content) (braceStep content) bi = Some (scanBraces content bi)"
proof (induction content bi rule: scanBraces.induct)
  case (1 content bi)
  show ?case
  proof (cases "braceCond content bi")
    case True
    then show ?thesis
      using "1.IH" by (subst while_option_unfold, subst scanBraces.simps) simp
  next
    case False
    then show ?thesis
      by (subst while_option_unfold, subst scanBraces.simps) simp
  qed
qed

lemma scanBraces_bound:
  "snd (scanBraces content (b, i)) \<le> max i (length content)"
proof (induction content "(b, i)" arbitrary: b i rule: scanBraces.induct)
  case (1 content)
  show ?case
  proof (cases "braceCond content (b, i)")
    case True
    obtain b' where s: "braceStep content (b, i) = (b', Suc i)"
      by (simp add: braceStep_def Let_def)
    have "i < length content" using True by (simp add: braceCond_def)
    then show ?thesis
      using "1.hyps"[OF True s] True s by (subst scanBraces.simps) (simp add: max_def)
  next
    case False
    then show ?thesis by (subst scanBraces.simps) simp
  qed
qed

lemma splitFrom_pieces: "splitFrom r p acc s \<noteq> []"
  by (induction r p acc s rule: splitFrom.induct) (auto split: option.splits)

lemma matchHere_end:
  assumes "\<not> nullable r"
  shows "matchHere r p [] i = None"
proof (cases "matchHere r p [] i")
  case None
  then show ?thesis .
next
  case (Some m)
  have "m_text m = []" using Some by (auto simp: matchHere_def split: option.splits)
  then show ?thesis using matchHere_nonempty[OF assms Some] by simp
qed

text \<open>The pieces of a named import are never none: \<^verbatim>\<open>orig\<close> is always defined.\<close>

lemma asPattern_pieces: "splitRegex asPattern s \<noteq> []"
proof -
  have "\<not> nullable asPattern" by (simp add: asPattern_def)
  then have "matchHere asPattern None [] 0 = None" by (rule matchHere_end)
  then show ?thesis by (simp add: splitRegex_def splitFrom_pieces)
qed

lemma extractImports_returns: "\<exists>st'. extractImports content path lang st = Some st'"
proof -
  obtain ms where "matchAll importRegex content = Some ms"
    using matchAll_returns[OF patterns_not_nullable(7)] by blast
  then show ?thesis by (simp add: extractImports_def)
qed

lemma targetStep_returns:
  assumes "\<forall>source text. callSites source text \<noteq> None"
  shows "\<exists>st'. targetStep callSites content path lang fileImports targetNode st = Some st'"
proof -
  obtain isVisible callName where v: "visibility path fileImports targetNode = (isVisible, callName)"
    by (cases "visibility path fileImports targetNode")
  obtain idxs where "callSites (callPattern callName) content = Some idxs"
    using assms by blast
  then show ?thesis using v by (simp add: targetStep_def)
qed

lemma extractCalls_returns:
  assumes "\<forall>source text. callSites source text \<noteq> None"
  shows "\<exists>st'. extractCalls callSites content path lang st = Some st'"
  unfolding extractCalls_def Let_def
  by (rule foldOpt_returns) (rule targetStep_returns[OF assms])

text \<open>
  A run returns a graph when every file can be read and the loop over every call
  pattern returns.
\<close>

lemma analyzeFiles_returns:
  assumes "readFiles files mainLanguage = Some fcs"
    and "\<forall>source text. callSites source text \<noteq> None"
  shows "\<exists>g. analyzeFiles callSites files mainLanguage = Some g"
proof -
  obtain st2 where 2: "foldOpt (\<lambda>f. extractEntities (fc_content f) (fc_path f) (fc_lang f)) fcs
                         (fold fileStep fcs cleared) = Some st2"
    using foldOpt_returns[of "\<lambda>f. extractEntities (fc_content f) (fc_path f) (fc_lang f)"]
      extractEntities_returns by blast
  obtain st3 where 3: "foldOpt (\<lambda>f. extractImports (fc_content f) (fc_path f) (fc_lang f)) fcs st2 = Some st3"
    using foldOpt_returns[of "\<lambda>f. extractImports (fc_content f) (fc_path f) (fc_lang f)"]
      extractImports_returns by blast
  obtain st5 where 5: "foldOpt (\<lambda>f. extractCalls callSites (fc_content f) (fc_path f) (fc_lang f)) fcs
                         (createFileImportLinks (map fc_path fcs) st3) = Some st5"
    using foldOpt_returns[of "\<lambda>f. extractCalls callSites (fc_content f) (fc_path f) (fc_lang f)"]
      extractCalls_returns[OF assms(2)] by blast
  show ?thesis using assms(1) 2 3 5 by (simp add: analyzeFiles_def Let_def)
qed

section \<open>The example runs\<close>

lemma tsProject_run: "analyzeFiles jsCallSites tsProject Typescript = Some tsGraph"
  by code_simp

lemma rustProject_run:
  "map_option links (analyzeFiles jsCallSites rustProject Rust) =
     Some [structureLink ''a.rs'' ''a.rs:run'', structureLink ''b.rs'' ''b.rs:helper'']"
  by code_simp

lemma pyProject_files: "readFiles pyProject Python = Some [aPy, bPy]"
  by code_simp

lemma pyProject_graph: "analyzeFiles jsCallSites pyProject Python = Some pyGraph"
  by code_simp

lemma fooProject_run:
  "map_option (map (\<lambda>n. (n_id n, n_name n, n_line n, n_type n)) \<circ> nodes)
      (analyzeFiles jsCallSites fooProject Typescript) =
     Some [(''foo.ts'', ''foo.ts'', 0, NFile), (''foo.ts:Foo.bar'', ''Foo.bar'', 2, NMethod),
           (''foo.ts:Foo.if'', ''Foo.if'', 3, NMethod)]"
  by code_simp

section \<open>Steps of the passes\<close>

lemma findEnclosingEntity_None:
  assumes "\<forall>n \<in> set (mapValues (this_nodes st)). n_file n = path \<and> n_type n \<noteq> NFile \<longrightarrow> line < n_line n"
  shows "findEnclosingEntity st path line = None"
  using assms by (auto simp: findEnclosingEntity_def find_None_iff)

lemma function_pass_drops_reserved:
  "templ (orElse (capture m 1) (capture m 2)) \<in> set reserved \<Longrightarrow>
   entityStep content path lang c m st = st"
  by (simp add: entityStep_def Let_def)

lemma update_unsized:
  "map_of m k = Some node \<Longrightarrow>
   map (\<lambda>kn. unsized (snd kn)) (AList.update k (node\<lparr>n_size := z\<rparr>) m) = map (\<lambda>kn. unsized (snd kn)) m"
  by (induction m) (auto simp: unsized_def)

lemma callStep_unsized:
  "map unsized (mapValues (this_nodes (callStep content path t idx st))) = map unsized (mapValues (this_nodes st))"
  by (auto simp: callStep_def Let_def mapValues_def mapSet_def mapGet_def update_unsized comp_def
           split: option.splits)

lemma insort_key_unsized:
  assumes "\<And>n. f (unsized n) = f n"
  shows "map unsized (insort_key f x xs) = insort_key f (unsized x) (map unsized xs)"
  using assms by (induction xs) auto

lemma sort_key_unsized:
  assumes "\<And>n. f (unsized n) = f n"
  shows "map unsized (sort_key f xs) = sort_key f (map unsized xs)"
  using assms by (induction xs) (auto simp: insort_key_unsized)

lemma filter_unsized:
  assumes "\<And>n. Q (unsized n) = Q n"
  shows "map unsized (filter Q xs) = filter Q (map unsized xs)"
  using assms by (induction xs) auto

lemma find_unsized:
  assumes "\<And>n. P (unsized n) = P n"
  shows "map_option unsized (find P xs) = find P (map unsized xs)"
  using assms by (induction xs) auto

lemma findEnclosingEntity_unsized:
  "map_option unsized (findEnclosingEntity st path line) =
     find (\<lambda>n. n_line n \<le> line)
       (sort_key (\<lambda>n. - int (n_line n))
          (filter (\<lambda>n. n_file n = path \<and> n_type n \<noteq> NFile) (map unsized (mapValues (this_nodes st)))))"
  unfolding findEnclosingEntity_def
  by (subst find_unsized, simp add: unsized_def, subst sort_key_unsized, simp add: unsized_def,
      subst filter_unsized, simp add: unsized_def, rule refl)

lemma enclosing_id_stable:
  assumes "map unsized (mapValues (this_nodes st')) = map unsized (mapValues (this_nodes st))"
  shows "map_option n_id (findEnclosingEntity st' path line) = map_option n_id (findEnclosingEntity st path line)"
proof -
  have "map_option unsized (findEnclosingEntity st' path line) = map_option unsized (findEnclosingEntity st path line)"
    by (simp add: findEnclosingEntity_unsized assms)
  then have "map_option (n_id \<circ> unsized) (findEnclosingEntity st' path line)
           = map_option (n_id \<circ> unsized) (findEnclosingEntity st path line)"
    by (simp flip: option.map_comp)
  moreover have "n_id \<circ> unsized = n_id" by (auto simp: unsized_def)
  ultimately show ?thesis by simp
qed

lemma callStep_links_grow:
  "existingLink a b (this_links st) \<Longrightarrow> existingLink a b (this_links (callStep content path t idx st))"
  by (auto simp: callStep_def Let_def existingLink_def split: option.splits)

lemma callStep_adds_link:
  assumes "map_option n_id (findEnclosingEntity st path (lineOf content idx)) = Some sid"
    and "sid \<noteq> n_id t"
  shows "existingLink sid (n_id t) (this_links (callStep content path t idx st))"
  using assms by (auto simp: callStep_def Let_def existingLink_def split: option.splits)

lemma fold_callStep_links_grow:
  "existingLink a b (this_links st) \<Longrightarrow>
   existingLink a b (this_links (fold (callStep content path t) idxs st))"
  by (induction idxs arbitrary: st) (auto intro: callStep_links_grow)

lemma fold_callStep_adds_link:
  assumes "idx \<in> set idxs"
    and "map_option n_id (findEnclosingEntity st path (lineOf content idx)) = Some sid"
    and "sid \<noteq> n_id t"
  shows "existingLink sid (n_id t) (this_links (fold (callStep content path t) idxs st))"
  using assms
proof (induction idxs arbitrary: st)
  case Nil
  then show ?case by simp
next
  case (Cons i idxs)
  show ?case
  proof (cases "i = idx")
    case True
    have "existingLink sid (n_id t) (this_links (callStep content path t i st))"
      using callStep_adds_link[OF Cons.prems(2,3)] True by simp
    then show ?thesis by (simp add: fold_callStep_links_grow)
  next
    case False
    then have 1: "idx \<in> set idxs" using Cons.prems(1) by simp
    have 2: "map_option n_id (findEnclosingEntity (callStep content path t i st) path (lineOf content idx)) = Some sid"
      using enclosing_id_stable[OF callStep_unsized] Cons.prems(2) by simp
    from Cons.IH[OF 1 2 Cons.prems(3)] show ?thesis by simp
  qed
qed

section \<open>A call site in a Python file\<close>

lemma getFolderColor_registry [simp]:
  "this_importRegistry (snd (getFolderColor path st)) = this_importRegistry st"
  by (simp add: getFolderColor_def Let_def)

lemma fileStep_frame:
  "this_links (fileStep f st) = this_links st \<and>
   this_importRegistry (fileStep f st) = this_importRegistry st"
proof -
  obtain c st1 where g: "getFolderColor (fc_path f) st = (c, st1)" by (cases "getFolderColor (fc_path f) st")
  have "this_links st1 = this_links st" "this_importRegistry st1 = this_importRegistry st"
    using getFolderColor_links[of "fc_path f" st] getFolderColor_registry[of "fc_path f" st] g by simp_all
  then show ?thesis using g by (simp add: fileStep_def)
qed

lemma entityStep_frame:
  "this_links (entityStep content path lang c m st) = this_links st \<and>
   this_importRegistry (entityStep content path lang c m st) = this_importRegistry st"
  by (simp add: entityStep_def Let_def)

lemma typeStep_frame:
  "this_links (typeStep content path m st) = this_links st \<and>
   this_importRegistry (typeStep content path m st) = this_importRegistry st"
  by (simp add: typeStep_def Let_def)

lemma fold_frame:
  assumes "\<And>x t. this_links (f x t) = this_links t \<and> this_importRegistry (f x t) = this_importRegistry t"
  shows "this_links (fold f xs st) = this_links st \<and>
         this_importRegistry (fold f xs st) = this_importRegistry st"
  using assms by (induction xs arbitrary: st) auto

lemma foldOpt_frame:
  assumes "foldOpt f xs st = Some st'"
    and "\<And>x t t'. f x t = Some t' \<Longrightarrow>
           this_links t' = this_links t \<and> this_importRegistry t' = this_importRegistry t"
  shows "this_links st' = this_links st \<and> this_importRegistry st' = this_importRegistry st"
  using assms
proof (induction xs arbitrary: st)
  case Nil
  then show ?case by simp
next
  case (Cons x xs)
  then obtain t where t: "f x st = Some t" and r: "foldOpt f xs t = Some st'"
    by (auto split: option.splits)
  from Cons.IH[OF r Cons.prems(2)] Cons.prems(2)[OF t] show ?case by simp
qed

lemma fold_methodStep_frame:
  "this_links (fst (fold (methodStep content path lang c cn ci) ms (st, cm))) = this_links st \<and>
   this_importRegistry (fst (fold (methodStep content path lang c cn ci) ms (st, cm))) = this_importRegistry st"
proof (induction ms arbitrary: st cm)
  case Nil
  then show ?case by simp
next
  case (Cons m ms)
  obtain st1 cm1 where s: "methodStep content path lang c cn ci m (st, cm) = (st1, cm1)"
    by (cases "methodStep content path lang c cn ci m (st, cm)")
  then have "this_links st1 = this_links st \<and> this_importRegistry st1 = this_importRegistry st"
    by (auto simp: methodStep_def Let_def)
  then show ?case using Cons.IH[of st1 cm1] s by simp
qed

lemma classStep_frame:
  assumes "classStep content path lang c m st = Some st'"
  shows "this_links st' = this_links st \<and> this_importRegistry st' = this_importRegistry st"
proof -
  define cn where "cn = templ (capture m 1)"
  define ci where "ci = m_index m"
  define cc where "cc = substring content ci (snd (scanBraces content (1, ci + length (m_text m))))"
  from assms obtain ms where ms: "matchAll methodPattern cc = Some ms"
    by (auto simp: classStep_def Let_def cn_def ci_def cc_def simp del: scanBraces.simps
             split: option.splits)
  obtain st1 cm where f: "fold (methodStep content path lang c cn ci) ms (st, []) = (st1, cm)"
    by (cases "fold (methodStep content path lang c cn ci) ms (st, [])")
  have "this_links st' = this_links st1 \<and> this_importRegistry st' = this_importRegistry st1"
    using assms ms f
    by (auto simp: classStep_def Let_def cn_def ci_def cc_def simp del: scanBraces.simps
             split: option.splits)
  with fold_methodStep_frame[of content path lang c cn ci ms st "[]"] f
  show ?thesis by simp
qed

lemma extractEntities_frame:
  assumes "extractEntities content path lang st = Some st'"
  shows "this_links st' = this_links st \<and> this_importRegistry st' = this_importRegistry st"
proof -
  obtain c st1 where g: "getFolderColor path st = (c, st1)" by (cases "getFolderColor path st")
  have 1: "this_links st1 = this_links st \<and> this_importRegistry st1 = this_importRegistry st"
    using getFolderColor_links[of path st] getFolderColor_registry[of path st] g by simp
  from assms g obtain st2 where
    s2: "extractFunctions content path lang c st1 = Some st2"
    and rest: "(if lang = Typescript \<or> lang = Javascript then
               (case extractClassMethods content path lang c st2 of
                  None \<Rightarrow> None
                | Some st3 \<Rightarrow>
                    if lang = Typescript then extractTypeScriptTypes content path c st3
                    else Some st3)
             else Some st2) = Some st'"
    by (simp add: extractEntities_def split: option.splits)
  have 2: "this_links st2 = this_links st1 \<and> this_importRegistry st2 = this_importRegistry st1"
  proof (cases "patterns lang")
    case None
    then show ?thesis using s2 by (simp add: extractFunctions_def)
  next
    case (Some regex)
    then obtain ms where "st2 = fold (entityStep content path lang c) ms st1"
      using s2 by (auto simp: extractFunctions_def split: option.splits)
    then show ?thesis
      using fold_frame[of "entityStep content path lang c" ms st1, OF entityStep_frame] by simp
  qed
  have c3: "this_links t' = this_links t \<and> this_importRegistry t' = this_importRegistry t"
    if "extractClassMethods content path lang c t = Some t'" for t t'
  proof -
    from that obtain cs where "foldOpt (classStep content path lang c) cs t = Some t'"
      by (auto simp: extractClassMethods_def split: option.splits)
    then show ?thesis by (rule foldOpt_frame) (rule classStep_frame)
  qed
  have c4: "this_links t' = this_links t \<and> this_importRegistry t' = this_importRegistry t"
    if "extractTypeScriptTypes content path c t = Some t'" for t t'
  proof -
    from that obtain ms where "t' = fold (typeStep content path) ms t"
      by (auto simp: extractTypeScriptTypes_def split: option.splits)
    then show ?thesis
      using fold_frame[of "typeStep content path" ms t, OF typeStep_frame] by simp
  qed
  show ?thesis
  proof (cases "lang = Typescript \<or> lang = Javascript")
    case False
    then show ?thesis using rest 1 2 by simp
  next
    case True
    then obtain st3 where e3: "extractClassMethods content path lang c st2 = Some st3"
      and r3: "(if lang = Typescript then extractTypeScriptTypes content path c st3 else Some st3) = Some st'"
      using rest by (auto split: option.splits)
    show ?thesis
    proof (cases "lang = Typescript")
      case True
      then show ?thesis using r3 c3[OF e3] c4[of st3 st'] 1 2 by simp
    next
      case False
      then show ?thesis using r3 c3[OF e3] 1 2 by simp
    qed
  qed
qed

lemma impInv_frame:
  "impInv R st \<Longrightarrow> this_links st' = this_links st \<and> this_importRegistry st' = this_importRegistry st
     \<Longrightarrow> impInv R st'"
  by (simp add: impInv_def)

lemma impInv_cleared: "impInv R cleared"
  by (simp add: impInv_def cleared_def)

lemma fold_fileStep_impInv: "impInv R (fold fileStep fcs cleared)"
  using fold_frame[of fileStep fcs cleared, OF fileStep_frame] impInv_cleared[of R]
  by (simp add: impInv_def)

lemma foldOpt_extractEntities_impInv:
  assumes "foldOpt (\<lambda>f. extractEntities (fc_content f) (fc_path f) (fc_lang f)) fcs st = Some st'"
    and "impInv R st"
  shows "impInv R st'"
proof -
  have "this_links st' = this_links st \<and> this_importRegistry st' = this_importRegistry st"
    by (rule foldOpt_frame[OF assms(1)]) (rule extractEntities_frame)
  with assms(2) show ?thesis by (simp add: impInv_def)
qed

lemma extractImports_impInv:
  assumes "extractImports content path lang st = Some st'" and "impInv R st"
    and "lang = Typescript \<or> lang = Javascript \<Longrightarrow> path \<in> R"
  shows "impInv R st'"
proof (cases "lang = Typescript \<or> lang = Javascript")
  case False
  then have "st' = st" using assms(1) by (simp add: extractImports_def)
  then show ?thesis using assms(2) by simp
next
  case True
  then obtain fi where "st' = st\<lparr>this_importRegistry := mapSet path fi (this_importRegistry st)\<rparr>"
    using assms(1) by (auto simp: extractImports_def split: option.splits)
  then show ?thesis using assms(2) assms(3)[OF True] by (auto simp: impInv_def keys_mapSet)
qed

lemma foldOpt_extractImports_impInv:
  assumes "foldOpt (\<lambda>f. extractImports (fc_content f) (fc_path f) (fc_lang f)) fcs st = Some st'"
    and "impInv R st" and "set (scriptPaths fcs) \<subseteq> R"
  shows "impInv R st'"
proof (rule foldOpt_inv[OF assms(1), where P = "impInv R"])
  show "impInv R st" by (rule assms(2))
next
  fix x t t'
  assume x: "x \<in> set fcs" and t: "impInv R t"
    and e: "extractImports (fc_content x) (fc_path x) (fc_lang x) t = Some t'"
  have "fc_path x \<in> R" if "fc_lang x = Typescript \<or> fc_lang x = Javascript"
    using that x assms(3) by (auto simp: scriptPaths_def)
  then show "impInv R t'" using extractImports_impInv[OF e t] by blast
qed

lemma importLinkStep_impInv:
  assumes "impInv R st" and "importingFile \<in> R"
  shows "impInv R (importLinkStep importingFile b st)"
  using assms by (cases b) (auto simp: importLinkStep_def Let_def impInv_def split: option.splits)

lemma fold_importLinkStep_impInv:
  assumes "impInv R st" and "importingFile \<in> R"
  shows "impInv R (fold (importLinkStep importingFile) imps st)"
  using assms(1)
  by (induction imps arbitrary: st) (auto intro: importLinkStep_impInv[OF _ assms(2)])

lemma importLinkStep_registry [simp]:
  "this_importRegistry (importLinkStep importingFile b st) = this_importRegistry st"
  by (cases b) (auto simp: importLinkStep_def Let_def split: option.splits)

lemma fold_importLinkStep_registry [simp]:
  "this_importRegistry (fold (importLinkStep importingFile) imps st) = this_importRegistry st"
  by (induction imps arbitrary: st) auto

lemma importLoop_impInv:
  assumes "impInv R st" and "fst ` set reg \<subseteq> R"
  shows "impInv R (fold (\<lambda>(importingFile, imps) st'.
             if \<not> mapHas importingFile (this_nodes st') then st'
             else fold (importLinkStep importingFile) imps st') reg st)"
  using assms
proof (induction reg arbitrary: st)
  case Nil
  then show ?case by simp
next
  case (Cons a reg)
  obtain importingFile imps where a: "a = (importingFile, imps)" by (cases a)
  have r: "importingFile \<in> R" using Cons.prems(2) a by simp
  have "impInv R (if \<not> mapHas importingFile (this_nodes st) then st
                  else fold (importLinkStep importingFile) imps st)"
    using Cons.prems(1) fold_importLinkStep_impInv[OF Cons.prems(1) r] by simp
  from Cons.IH[OF this] Cons.prems(2) show ?case using a by simp
qed

lemma createFileImportLinks_impInv:
  assumes "impInv R st"
  shows "impInv R (createFileImportLinks filePaths st)"
  unfolding createFileImportLinks_def
  by (rule importLoop_impInv[OF assms]) (use assms in \<open>simp add: impInv_def\<close>)

lemma importLoop_registry:
  "this_importRegistry (fold (\<lambda>(importingFile, imps) st'.
             if \<not> mapHas importingFile (this_nodes st') then st'
             else fold (importLinkStep importingFile) imps st') reg st) = this_importRegistry st"
  by (induction reg arbitrary: st) (auto split: prod.splits)

lemma callStep_registry [simp]:
  "this_importRegistry (callStep content path t idx st) = this_importRegistry st"
  by (auto simp: callStep_def Let_def split: option.splits)

lemma callStep_impInv: "impInv R st \<Longrightarrow> impInv R (callStep content path t idx st)"
  by (auto simp: callStep_def Let_def impInv_def split: option.splits)

lemma callsKeep_refl: "callsKeep st st"
  by (simp add: callsKeep_def)

lemma callsKeep_trans: "callsKeep a b \<Longrightarrow> callsKeep b c \<Longrightarrow> callsKeep a c"
  by (auto simp: callsKeep_def)

lemma callStep_keeps: "callsKeep st (callStep content path t idx st)"
  unfolding callsKeep_def
  by (intro conjI callStep_registry callStep_unsized)
     (auto simp: callStep_def Let_def split: option.splits)

lemma fold_callStep_keeps: "callsKeep st (fold (callStep content path t) idxs st)"
proof (induction idxs arbitrary: st)
  case Nil
  then show ?case by (simp add: callsKeep_refl)
next
  case (Cons i idxs)
  from callsKeep_trans[OF callStep_keeps Cons.IH] show ?case by simp
qed

lemma targetStep_keeps:
  assumes "targetStep callSites content path lang fileImports t st = Some st'"
  shows "callsKeep st st'"
proof (cases "st' = st")
  case True
  then show ?thesis by (simp add: callsKeep_refl)
next
  case False
  then obtain idxs where "st' = fold (callStep content path t) idxs st"
    using assms by (auto simp: targetStep_def Let_def split: if_splits prod.splits option.splits)
  then show ?thesis by (simp add: fold_callStep_keeps)
qed

lemma foldOpt_keeps:
  assumes "foldOpt f xs st = Some st'" and "\<And>x t t'. f x t = Some t' \<Longrightarrow> callsKeep t t'"
  shows "callsKeep st st'"
  using assms
proof (induction xs arbitrary: st)
  case Nil
  then show ?case by (simp add: callsKeep_refl)
next
  case (Cons x xs)
  then obtain t where t: "f x st = Some t" and r: "foldOpt f xs t = Some st'"
    by (auto split: option.splits)
  from callsKeep_trans[OF Cons.prems(2)[OF t] Cons.IH[OF r Cons.prems(2)]] show ?case .
qed

lemma extractCalls_keeps:
  assumes "extractCalls callSites content path lang st = Some st'"
  shows "callsKeep st st'"
proof -
  from assms have "foldOpt (targetStep callSites content path lang (mapGet path (this_importRegistry st)))
           (mapValues (this_nodes st)) st = Some st'"
    by (simp add: extractCalls_def Let_def)
  then show ?thesis by (rule foldOpt_keeps) (rule targetStep_keeps)
qed

lemma foldOpt_split:
  assumes "foldOpt f xs st = Some st'" and "x \<in> set xs"
  shows "\<exists>ys zs a b. xs = ys @ x # zs \<and> foldOpt f ys st = Some a \<and> f x a = Some b \<and>
            foldOpt f zs b = Some st'"
  using assms
proof (induction xs arbitrary: st)
  case Nil
  then show ?case by simp
next
  case (Cons y xs)
  then obtain t where t: "f y st = Some t" and r: "foldOpt f xs t = Some st'"
    by (auto split: option.splits)
  show ?case
  proof (cases "x = y")
    case True
    have "y # xs = [] @ x # xs \<and> foldOpt f [] st = Some st \<and> f x st = Some t \<and> foldOpt f xs t = Some st'"
      using True t r by simp
    then show ?thesis by blast
  next
    case False
    then have "x \<in> set xs" using Cons.prems(2) by simp
    from Cons.IH[OF r this] obtain ys zs a b where
      "xs = ys @ x # zs" "foldOpt f ys t = Some a" "f x a = Some b" "foldOpt f zs b = Some st'"
      by blast
    then have "y # xs = (y # ys) @ x # zs \<and> foldOpt f (y # ys) st = Some a \<and> f x a = Some b \<and>
               foldOpt f zs b = Some st'"
      using t by simp
    then show ?thesis by blast
  qed
qed

lemma sorted_find_first:
  assumes "sorted (map f xs)" and "find P xs = Some y" and "z \<in> set xs" and "P z"
  shows "f y \<le> f z"
  using assms
proof (induction xs)
  case Nil
  then show ?case by simp
next
  case (Cons a xs)
  show ?case
  proof (cases "P a")
    case True
    then have "y = a" using Cons.prems(2) by simp
    then show ?thesis using Cons.prems(1,3) by auto
  next
    case False
    then have "find P xs = Some y" "z \<in> set xs" using Cons.prems by auto
    then show ?thesis using Cons.IH Cons.prems(1,4) by simp
  qed
qed

lemma find_Some_holds: "find P xs = Some y \<Longrightarrow> P y \<and> y \<in> set xs"
  by (induction xs) (auto split: if_splits)

lemma findEnclosingEntity_enclosedBy:
  assumes e: "enclosedBy ns path line s"
    and sh: "map unsized (mapValues (this_nodes st)) = map unsized ns"
  shows "map_option n_id (findEnclosingEntity st path line) = Some (n_id s)"
proof -
  let ?P = "\<lambda>n. n_line n \<le> line"
  let ?Q = "\<lambda>n. n_file n = path \<and> n_type n \<noteq> NFile"
  let ?f = "\<lambda>n. - int (n_line n)"
  let ?xs = "sort_key ?f (filter ?Q (map unsized ns))"
  have u: "map_option unsized (findEnclosingEntity st path line) = find ?P ?xs"
    by (simp add: findEnclosingEntity_unsized sh)
  have s: "unsized s \<in> set ?xs" "?P (unsized s)"
    using e by (auto simp: enclosedBy_def unsized_def)
  then obtain y where y: "find ?P ?xs = Some y"
    by (cases "find ?P ?xs") (auto simp: find_None_iff)
  then have yP: "?P y" and yin: "y \<in> set ?xs"
    using find_Some_holds[OF y] by simp_all
  from yin obtain n where n: "n \<in> set ns" "y = unsized n" "?Q n"
    by (auto simp: unsized_def)
  have "?f y \<le> ?f (unsized s)"
    by (rule sorted_find_first[OF _ y s]) (simp add: sorted_sort_key)
  then have le: "n_line s \<le> n_line n" using n(2) by (simp add: unsized_def)
  have "n_id n = n_id s"
  proof (rule ccontr)
    assume "n_id n \<noteq> n_id s"
    then have "n_line n < n_line s"
      using e n yP by (auto simp: enclosedBy_def unsized_def)
    with le show False by simp
  qed
  then have "n_id y = n_id s" using n(2) by (simp add: unsized_def)
  moreover from u y obtain r where "findEnclosingEntity st path line = Some r" "unsized r = y"
    by (cases "findEnclosingEntity st path line") auto
  ultimately show ?thesis by (auto simp: unsized_def)
qed

lemma targetStep_impInv:
  assumes "targetStep callSites content path lang fileImports t st = Some st'" and "impInv R st"
  shows "impInv R st'"
proof (cases "st' = st")
  case True
  then show ?thesis using assms(2) by simp
next
  case False
  then obtain idxs where s: "st' = fold (callStep content path t) idxs st"
    using assms(1) by (auto simp: targetStep_def Let_def split: if_splits prod.splits option.splits)
  have "impInv R (fold (callStep content path t) idxs st)"
    using assms(2) by (induction idxs arbitrary: st) (auto intro: callStep_impInv)
  then show ?thesis using s by simp
qed

lemma extractCalls_impInv:
  assumes "extractCalls callSites content path lang st = Some st'" and "impInv R st"
  shows "impInv R st'"
proof -
  from assms(1) have f: "foldOpt (targetStep callSites content path lang (mapGet path (this_importRegistry st)))
           (mapValues (this_nodes st)) st = Some st'"
    by (simp add: extractCalls_def Let_def)
  show ?thesis
  proof (rule foldOpt_inv[OF f, where P = "impInv R"])
    show "impInv R st" by (rule assms(2))
  next
    fix x t t'
    assume "impInv R t"
      and "targetStep callSites content path lang (mapGet path (this_importRegistry st)) x t = Some t'"
    then show "impInv R t'" using targetStep_impInv by blast
  qed
qed

lemma foldOpt_extractCalls_impInv:
  assumes "foldOpt (\<lambda>f. extractCalls callSites (fc_content f) (fc_path f) (fc_lang f)) fcs st = Some st'"
    and "impInv R st"
  shows "impInv R st'"
proof (rule foldOpt_inv[OF assms(1), where P = "impInv R"])
  show "impInv R st" by (rule assms(2))
next
  fix x t t'
  assume "impInv R t" and "extractCalls callSites (fc_content x) (fc_path x) (fc_lang x) t = Some t'"
  then show "impInv R t'" using extractCalls_impInv by blast
qed

lemma foldOpt_extractCalls_keeps:
  assumes "foldOpt (\<lambda>f. extractCalls callSites (fc_content f) (fc_path f) (fc_lang f)) fcs st = Some st'"
  shows "callsKeep st st'"
  by (rule foldOpt_keeps[OF assms]) (rule extractCalls_keeps)

lemma targetStep_python:
  assumes "n_type t \<noteq> NFile"
  shows "targetStep callSites content path Python None t st =
           map_option (\<lambda>idxs. fold (callStep content path t) idxs st)
             (callSites (callPattern (n_name t)) content)"
  using assms by (auto simp: targetStep_def visibility_def split: option.splits)

text \<open>The pass over one Python file, from a state whose registry has no entry for it.\<close>

lemma extractCalls_python_edge:
  assumes ec: "extractCalls callSites content path Python a = Some b"
    and reg: "mapGet path (this_importRegistry a) = None"
    and sh: "map unsized (mapValues (this_nodes a)) = map unsized ns"
    and t: "t \<in> set ns" "n_type t \<noteq> NFile"
    and sites: "callSites (callPattern (n_name t)) content = Some idxs" "idx \<in> set idxs"
    and enc: "enclosedBy ns path (lineOf content idx) s"
    and ne: "n_id s \<noteq> n_id t"
  shows "existingLink (n_id s) (n_id t) (this_links b)"
proof -
  from ec reg have f: "foldOpt (targetStep callSites content path Python None)
                         (mapValues (this_nodes a)) a = Some b"
    by (simp add: extractCalls_def Let_def)
  have "unsized t \<in> set (map unsized (mapValues (this_nodes a)))"
    using t(1) sh by simp
  then obtain t' where t': "t' \<in> set (mapValues (this_nodes a))" "unsized t' = unsized t"
    by auto
  have same: "n_id t' = n_id t" "n_name t' = n_name t" "n_type t' = n_type t"
  proof -
    have "n_id (unsized t') = n_id (unsized t)" "n_name (unsized t') = n_name (unsized t)"
      "n_type (unsized t') = n_type (unsized t)"
      using t'(2) by simp_all
    then show "n_id t' = n_id t" "n_name t' = n_name t" "n_type t' = n_type t"
      by (simp_all add: unsized_def)
  qed
  from foldOpt_split[OF f t'(1)] obtain ys zs a' b' where
    ys: "foldOpt (targetStep callSites content path Python None) ys a = Some a'"
    and step: "targetStep callSites content path Python None t' a' = Some b'"
    and zs: "foldOpt (targetStep callSites content path Python None) zs b' = Some b"
    by blast
  have k1: "callsKeep a a'" by (rule foldOpt_keeps[OF ys]) (rule targetStep_keeps)
  have k2: "callsKeep b' b" by (rule foldOpt_keeps[OF zs]) (rule targetStep_keeps)
  have b': "b' = fold (callStep content path t') idxs a'"
    using step targetStep_python[of t' callSites content path a'] t(2) same sites(1) by simp
  have "map unsized (mapValues (this_nodes a')) = map unsized ns"
    using k1 sh by (simp add: callsKeep_def)
  from findEnclosingEntity_enclosedBy[OF enc this]
  have e: "map_option n_id (findEnclosingEntity a' path (lineOf content idx)) = Some (n_id s)" .
  have "existingLink (n_id s) (n_id t') (this_links b')"
    unfolding b' by (rule fold_callStep_adds_link[OF sites(2) e]) (simp add: same ne)
  then show ?thesis using k2 same(1) by (auto simp: existingLink_def list_ex_iff callsKeep_def)
qed

section \<open>The claims\<close>

text \<open>
  C1. Call resolution example: \<^verbatim>\<open>a.ts\<close> holds \<^verbatim>\<open>import { helper as h } from './b'\<close> and,
  inside the function \<^verbatim>\<open>run\<close>, the text \<^verbatim>\<open>h()\<close>; \<^verbatim>\<open>b.ts\<close> declares
  \<^verbatim>\<open>export function helper() {}\<close>. The run returns a graph with the call edge from
  \<^verbatim>\<open>a.ts:run\<close> to \<^verbatim>\<open>b.ts:helper\<close>. The call site is matched under the local name: the
  binding makes \<^verbatim>\<open>helper\<close> visible in \<^verbatim>\<open>a.ts\<close> with \<^verbatim>\<open>h\<close> as the name to look for, the
  pattern of \<^verbatim>\<open>h\<close> has its one match on line 3 of \<^verbatim>\<open>a.ts\<close>, and the pattern of the
  original name \<^verbatim>\<open>helper\<close> has none there.
\<close>

theorem call_resolution_example:
  "(\<exists>g. analyzeFiles jsCallSites tsProject Typescript = Some g \<and>
        \<lparr>l_source = ''a.ts:run'', l_target = ''b.ts:helper'', l_value = 1, l_type = Some LCall\<rparr>
          \<in> set (links g)) \<and>
   visibility ''a.ts'' (Some [(''h'', \<lparr>sourceFile = ''b'', originalName = ''helper''\<rparr>)]) helperNode
     = (True, ''h'') \<and>
   map_option (map (lineOf a_ts)) (jsCallSites (callPattern ''h'') a_ts) = Some [3] \<and>
   jsCallSites (callPattern ''helper'') a_ts = Some []"
proof -
  have "\<lparr>l_source = ''a.ts:run'', l_target = ''b.ts:helper'', l_value = 1, l_type = Some LCall\<rparr>
          \<in> set (links tsGraph)"
    by (simp add: tsGraph_def callLink_def)
  then have 1: "\<exists>g. analyzeFiles jsCallSites tsProject Typescript = Some g \<and>
        \<lparr>l_source = ''a.ts:run'', l_target = ''b.ts:helper'', l_value = 1, l_type = Some LCall\<rparr>
          \<in> set (links g)"
    using tsProject_run by blast
  have 2: "visibility ''a.ts'' (Some [(''h'', \<lparr>sourceFile = ''b'', originalName = ''helper''\<rparr>)]) helperNode
     = (True, ''h'')"
    by code_simp
  have 3: "map_option (map (lineOf a_ts)) (jsCallSites (callPattern ''h'') a_ts) = Some [3]"
    by code_simp
  have 4: "jsCallSites (callPattern ''helper'') a_ts = Some []"
    by code_simp
  from 1 2 3 4 show ?thesis by (intro conjI)
qed

text \<open>
  C2, as amended. Import resolution example: for the same two files, reading the imports
  of \<^verbatim>\<open>a.ts\<close> stores the binding of \<^verbatim>\<open>h\<close> to the source \<^verbatim>\<open>b\<close> (the specifier resolved
  against the directory of \<^verbatim>\<open>a.ts\<close>, with no extension added) and the original name
  \<^verbatim>\<open>helper\<close>; the run returns a graph with the import edge from \<^verbatim>\<open>a.ts\<close> to \<^verbatim>\<open>b.ts\<close>,
  which the probing of the extensions finds.
\<close>

theorem import_resolution_example:
  "map_option this_importRegistry (extractImports a_ts ''a.ts'' Typescript cleared)
     = Some [(''a.ts'', [(''h'', \<lparr>sourceFile = ''b'', originalName = ''helper''\<rparr>)])] \<and>
   (\<exists>g. analyzeFiles jsCallSites tsProject Typescript = Some g \<and>
        \<lparr>l_source = ''a.ts'', l_target = ''b.ts'', l_value = 3, l_type = Some LImport\<rparr>
          \<in> set (links g))"
proof -
  have 1: "map_option this_importRegistry (extractImports a_ts ''a.ts'' Typescript cleared)
     = Some [(''a.ts'', [(''h'', \<lparr>sourceFile = ''b'', originalName = ''helper''\<rparr>)])]"
    by code_simp
  have "\<lparr>l_source = ''a.ts'', l_target = ''b.ts'', l_value = 3, l_type = Some LImport\<rparr>
          \<in> set (links tsGraph)"
    by (simp add: tsGraph_def importLink_def)
  then have "\<exists>g. analyzeFiles jsCallSites tsProject Typescript = Some g \<and>
        \<lparr>l_source = ''a.ts'', l_target = ''b.ts'', l_value = 3, l_type = Some LImport\<rparr>
          \<in> set (links g)"
    using tsProject_run by blast
  with 1 show ?thesis by (intro conjI)
qed

text \<open>
  The claim as the specification states it, with the source \<^verbatim>\<open>b.ts\<close> in the binding,
  fails on the code: the binding that \<^verbatim>\<open>h\<close> gets is not that one.
\<close>

theorem import_binding_counterexample:
  "map_option (\<lambda>st. map_option (mapGet ''h'') (mapGet ''a.ts'' (this_importRegistry st)))
      (extractImports a_ts ''a.ts'' Typescript cleared)
     \<noteq> Some (Some (Some \<lparr>sourceFile = ''b.ts'', originalName = ''helper''\<rparr>))"
  by code_simp

text \<open>
  C3, as amended. Python is the one language that the visibility test of \<^verbatim>\<open>extractCalls\<close>
  lets through. Take a run that returns, a Python file of it whose path no TypeScript or
  JavaScript file shares (so that the registry has no bindings for it), and any entity of
  the graph that is not a file, whatever file declares it. The entity is treated as
  visible from the file: wherever the call pattern of its name matches in the text of
  the file, at a site whose enclosing entity is another entity (and has for id no path
  of a TypeScript or JavaScript file), the graph has a call edge from the enclosing
  entity to it.
\<close>

theorem python_sees_every_entity:
  assumes run: "analyzeFiles callSites files mainLanguage = Some g"
    and read: "readFiles files mainLanguage = Some fcs"
    and f: "f \<in> set fcs" "fc_lang f = Python" "fc_path f \<notin> set (scriptPaths fcs)"
    and t: "t \<in> set (nodes g)" "n_type t \<noteq> NFile"
    and sites: "callSites (callPattern (n_name t)) (fc_content f) = Some idxs" "idx \<in> set idxs"
    and enc: "enclosedBy (nodes g) (fc_path f) (lineOf (fc_content f) idx) s"
    and ne: "n_id s \<noteq> n_id t" "n_id s \<notin> set (scriptPaths fcs)"
  shows "\<exists>l \<in> set (links g). l_type l = Some LCall \<and> l_source l = n_id s \<and> l_target l = n_id t"
proof -
  let ?R = "set (scriptPaths fcs)"
  let ?st1 = "fold fileStep fcs cleared"
  from run read obtain st2 st3 st5 where
    e2: "foldOpt (\<lambda>f. extractEntities (fc_content f) (fc_path f) (fc_lang f)) fcs ?st1 = Some st2"
    and e3: "foldOpt (\<lambda>f. extractImports (fc_content f) (fc_path f) (fc_lang f)) fcs st2 = Some st3"
    and e5: "foldOpt (\<lambda>f. extractCalls callSites (fc_content f) (fc_path f) (fc_lang f)) fcs
               (createFileImportLinks (map fc_path fcs) st3) = Some st5"
    and g: "g = \<lparr>nodes = mapValues (this_nodes (structureLinks st5)), links = this_links (structureLinks st5)\<rparr>"
    by (auto simp: analyzeFiles_def Let_def split: option.splits)
  let ?st4 = "createFileImportLinks (map fc_path fcs) st3"
  \<comment> \<open>the invariants at the end of the calls\<close>
  have "stInv ({} \<union> fc_path ` set fcs) ?st1"
    by (rule fold_fileStep_inv[OF stInv_cleared])
  then have "stInv (fc_path ` set fcs) st2"
    using foldOpt_extractEntities_inv[OF e2] by simp
  then have "stInv (fc_path ` set fcs) st3"
    by (rule foldOpt_extractImports_inv[OF e3])
  then have "stInv (fc_path ` set fcs) ?st4"
    by (rule createFileImportLinks_inv)
  then have s5: "stInv (fc_path ` set fcs) st5"
    by (rule foldOpt_extractCalls_inv[OF e5])
  have "impInv ?R ?st1" by (rule fold_fileStep_impInv)
  then have "impInv ?R st2" by (rule foldOpt_extractEntities_impInv[OF e2])
  then have "impInv ?R st3" by (rule foldOpt_extractImports_impInv[OF e3]) simp
  then have i4: "impInv ?R ?st4" by (rule createFileImportLinks_impInv)
  then have i5: "impInv ?R st5" by (rule foldOpt_extractCalls_impInv[OF e5])
  \<comment> \<open>the pass over the file\<close>
  define F where "F = (\<lambda>f :: FileContent. extractCalls callSites (fc_content f) (fc_path f) (fc_lang f))"
  have "foldOpt F fcs ?st4 = Some st5" using e5 by (simp add: F_def)
  from foldOpt_split[OF this f(1)] obtain ys zs a b where
    "foldOpt F ys ?st4 = Some a" and "F f a = Some b" and "foldOpt F zs b = Some st5"
    by blast
  then have
    ys: "foldOpt (\<lambda>f. extractCalls callSites (fc_content f) (fc_path f) (fc_lang f)) ys ?st4 = Some a"
    and step: "extractCalls callSites (fc_content f) (fc_path f) (fc_lang f) a = Some b"
    and zs: "foldOpt (\<lambda>f. extractCalls callSites (fc_content f) (fc_path f) (fc_lang f)) zs b = Some st5"
    by (simp_all add: F_def)
  have k1: "callsKeep ?st4 a" by (rule foldOpt_extractCalls_keeps[OF ys])
  have k2: "callsKeep a b" by (rule extractCalls_keeps[OF step])
  have k3: "callsKeep b st5" by (rule foldOpt_extractCalls_keeps[OF zs])
  have "fst ` set (this_importRegistry a) \<subseteq> ?R"
    using i4 k1 by (simp add: impInv_def callsKeep_def)
  then have reg: "mapGet (fc_path f) (this_importRegistry a) = None"
    using f(3) by (auto simp: mapGet_def map_of_eq_None_iff)
  have n: "nodes g = mapValues (this_nodes st5)" using g by simp
  have sh: "map unsized (mapValues (this_nodes a)) = map unsized (nodes g)"
    using k2 k3 n by (simp add: callsKeep_def)
  have step': "extractCalls callSites (fc_content f) (fc_path f) Python a = Some b"
    using step f(2) by simp
  have "existingLink (n_id s) (n_id t) (this_links b)"
    by (rule extractCalls_python_edge[where callSites = callSites and content = "fc_content f"
          and idxs = idxs and idx = idx, OF step' reg sh t sites enc ne(1)])
  then obtain l where l: "l \<in> set (this_links b)" "l_source l = n_id s" "l_target l = n_id t"
    by (auto simp: existingLink_def list_ex_iff)
  then have l5: "l \<in> set (this_links st5)" using k3 by (auto simp: callsKeep_def)
  then have "linkOK l" using s5 by (simp add: stInv_def linksInv_def list_all_iff)
  moreover have "l_type l \<noteq> Some LImport"
    using i5 l5 l(2) ne(2) by (auto simp: impInv_def list_all_iff)
  ultimately have "l_type l = Some LCall" by (simp add: linkOK_def)
  moreover have "l \<in> set (links g)" using l5 g by (simp add: structureLinks_def)
  ultimately show ?thesis using l(2,3) by blast
qed

theorem python_sees_every_entity_witness:
  "analyzeFiles jsCallSites pyProject Python = Some pyGraph \<and>
   readFiles pyProject Python = Some [aPy, bPy] \<and>
   aPy \<in> set [aPy, bPy] \<and> fc_lang aPy = Python \<and> scriptPaths [aPy, bPy] = [] \<and>
   pyHelper\<lparr>n_size := 8 + 3 / 10\<rparr> \<in> set (nodes pyGraph) \<and>
   n_type (pyHelper\<lparr>n_size := 8 + 3 / 10\<rparr>) \<noteq> NFile \<and>
   n_file (pyHelper\<lparr>n_size := 8 + 3 / 10\<rparr>) = ''b.py'' \<and>
   jsCallSites (callPattern (n_name (pyHelper\<lparr>n_size := 8 + 3 / 10\<rparr>))) (fc_content aPy) = Some [15] \<and>
   lineOf (fc_content aPy) 15 = 2 \<and>
   enclosedBy (nodes pyGraph) (fc_path aPy) (lineOf (fc_content aPy) 15) pyRun \<and>
   n_id pyRun \<noteq> n_id (pyHelper\<lparr>n_size := 8 + 3 / 10\<rparr>) \<and>
   (\<exists>l \<in> set (links pyGraph). l_type l = Some LCall \<and> l_source l = n_id pyRun \<and>
        l_target l = n_id (pyHelper\<lparr>n_size := 8 + 3 / 10\<rparr>))"
proof -
  let ?t = "pyHelper\<lparr>n_size := 8 + 3 / 10\<rparr>"
  have f: "aPy \<in> set [aPy, bPy]" "fc_lang aPy = Python" by (simp_all add: aPy_def)
  have sp: "scriptPaths [aPy, bPy] = []" by (simp add: scriptPaths_def aPy_def bPy_def)
  have t: "?t \<in> set (nodes pyGraph)" "n_type ?t \<noteq> NFile" "n_file ?t = ''b.py''"
    by (simp_all add: pyGraph_def pyHelper_def)
  have sites: "jsCallSites (callPattern (n_name ?t)) (fc_content aPy) = Some [15]"
    by code_simp
  have line: "lineOf (fc_content aPy) 15 = 2" by code_simp
  have enc: "enclosedBy (nodes pyGraph) (fc_path aPy) (lineOf (fc_content aPy) 15) pyRun"
    unfolding line
    by (simp add: enclosedBy_def pyGraph_def aPy_def pyRun_def pyHelper_def fileNode_def)
  have ne: "n_id pyRun \<noteq> n_id ?t" by (simp add: pyRun_def pyHelper_def)
  have "\<exists>l \<in> set (links pyGraph). l_type l = Some LCall \<and> l_source l = n_id pyRun \<and> l_target l = n_id ?t"
    by (rule python_sees_every_entity[where callSites = jsCallSites and f = aPy and idxs = "[15]"
          and idx = 15, OF pyProject_graph pyProject_files f _ t(1,2) sites _ enc ne])
       (simp_all add: sp)
  with pyProject_graph pyProject_files f sp t sites line enc ne show ?thesis by (intro conjI)
qed

text \<open>
  The claim as the specification states it, for every language without import
  declarations, fails on the code: \<^verbatim>\<open>a.rs\<close> calls \<^verbatim>\<open>helper\<close> of \<^verbatim>\<open>b.rs\<close> inside
  \<^verbatim>\<open>run\<close>, the pattern of \<^verbatim>\<open>helper\<close> matches on line 2 of \<^verbatim>\<open>a.rs\<close>, and the graph of the
  run has the two containment edges and no call edge.
\<close>

theorem visibility_counterexample:
  "map_option links (analyzeFiles jsCallSites rustProject Rust) =
     Some [structureLink ''a.rs'' ''a.rs:run'', structureLink ''b.rs'' ''b.rs:helper''] \<and>
   map_option (map (lineOf a_rs)) (jsCallSites (callPattern ''helper'') a_rs) = Some [2]"
proof -
  have "map_option (map (lineOf a_rs)) (jsCallSites (callPattern ''helper'') a_rs) = Some [2]"
    by code_simp
  with rustProject_run show ?thesis by (intro conjI)
qed

text \<open>
  C4. Edge uniqueness: in the graph of every run that returns, no two edges share kind,
  source and target.
\<close>

theorem edge_uniqueness:
  assumes "analyzeFiles callSites files mainLanguage = Some g"
  shows "distinct (map (\<lambda>l. (l_type l, l_source l, l_target l)) (links g))"
proof -
  from analyzeFiles_inv[OF assms] obtain st paths where "stInv paths st"
    and "g = \<lparr>nodes = mapValues (this_nodes (structureLinks st)), links = this_links (structureLinks st)\<rparr>"
    by blast
  then show ?thesis using edge_uniqueness_state[of paths st] by simp
qed

theorem edge_uniqueness_witness:
  "analyzeFiles jsCallSites tsProject Typescript = Some tsGraph \<and>
   distinct (map (\<lambda>l. (l_type l, l_source l, l_target l)) (links tsGraph))"
  using edge_uniqueness[OF tsProject_run] tsProject_run by simp

text \<open>
  C5. Reserved-word exclusion. The loop of \<^verbatim>\<open>extractEntities\<close> drops a match whose name
  is reserved (\<open>function_pass_drops_reserved\<close>); the loop of \<^verbatim>\<open>extractClassMethods\<close>
  has no such test. On a class whose method \<^verbatim>\<open>bar\<close> holds the statement
  \<^verbatim>\<open>if (x) { }\<close>, the method pattern matches twice, capturing \<^verbatim>\<open>bar\<close> and \<^verbatim>\<open>if\<close>, and
  the graph of the run has an entity \<^verbatim>\<open>foo.ts:Foo.if\<close> of kind method, declared on line 3.
\<close>

theorem class_pass_keeps_reserved_name:
  "map_option (map (\<lambda>n. (n_id n, n_name n, n_line n, n_type n)) \<circ> nodes)
      (analyzeFiles jsCallSites fooProject Typescript) =
     Some [(''foo.ts'', ''foo.ts'', 0, NFile), (''foo.ts:Foo.bar'', ''Foo.bar'', 2, NMethod),
           (''foo.ts:Foo.if'', ''Foo.if'', 3, NMethod)] \<and>
   map_option (map (\<lambda>m. capture m 1)) (matchAll methodPattern foo_ts) = Some [Some ''bar'', Some ''if'']"
proof -
  have "map_option (map (\<lambda>m. capture m 1)) (matchAll methodPattern foo_ts) = Some [Some ''bar'', Some ''if'']"
    by code_simp
  with fooProject_run show ?thesis by (intro conjI)
qed

text \<open>
  C6. Containment completeness: in the graph of every run, every entity that is not a
  file is the target of a containment edge whose source is the file entity with the id
  in its field \<^verbatim>\<open>file\<close>. The code pushes that edge under the test
  \<^verbatim>\<open>this.nodes.has(node.file)\<close>, which does not look at the type of the node found, and
  breaks the property on the project \<^const>\<open>colonProject\<close>: the method \<^verbatim>\<open>ts\<close> of the class
  \<^verbatim>\<open>run\<close> in \<^verbatim>\<open>a.ts\<close> gets the id \<^verbatim>\<open>a.ts:run.ts\<close> and takes the place of the node of the
  file of that name in the map of the nodes; the function \<^verbatim>\<open>x\<close> of that file then has its
  containment edge from an id under which the graph holds a method, and the graph holds
  no file entity with that id.
\<close>

theorem containment_source_not_file:
  "map_option (\<lambda>g. (map (\<lambda>n. (n_id n, n_file n, n_type n)) (nodes g),
                      map (\<lambda>l. (l_source l, l_target l, l_type l)) (links g)))
      (analyzeFiles jsCallSites colonProject Typescript) =
     Some ([(''a.ts'', ''a.ts'', NFile), (''a.ts:run.ts'', ''a.ts'', NMethod),
            (''a.ts:run.ts:x'', ''a.ts:run.ts'', NFunction)],
           [(''a.ts'', ''a.ts:run.ts'', Some LStructure),
            (''a.ts:run.ts'', ''a.ts:run.ts:x'', Some LStructure)])"
  by code_simp

text \<open>
  Outside such a collision of ids the property holds on every run that returns: the edge
  from the id in the field \<^verbatim>\<open>file\<close> is always there, that id is the id of a node of the
  graph, and the node is the file node whenever the path holds no colon (the id of every
  other entity holds one).
\<close>

lemma containment_completeness:
  assumes "analyzeFiles callSites files mainLanguage = Some g"
    and "e \<in> set (nodes g)" and "n_type e \<noteq> NFile"
  shows "(\<exists>l \<in> set (links g). l_type l = Some LStructure \<and> l_source l = n_file e \<and> l_target l = n_id e)
         \<and> (\<exists>f \<in> set (nodes g). n_id f = n_file e \<and>
               (CHR '':'' \<notin> set (n_file e) \<longrightarrow> n_type f = NFile))"
proof -
  from analyzeFiles_inv[OF assms(1)] obtain st paths where i: "stInv paths st"
    and g: "g = \<lparr>nodes = mapValues (this_nodes (structureLinks st)), links = this_links (structureLinks st)\<rparr>"
    by blast
  from i have ni: "nodesInv (this_nodes st)" by (simp add: stInv_def)
  from assms(2) g obtain k where k: "(k, e) \<in> set (this_nodes st)"
    by (auto simp: mapValues_def)
  then have "nodeOK (fst ` set (this_nodes st)) (k, e)"
    using ni by (auto simp: nodesInv_def list_all_iff)
  then have "n_file e \<in> fst ` set (this_nodes st)"
    using assms(3) by (simp add: nodeOK_def)
  then obtain f where f: "(n_file e, f) \<in> set (this_nodes st)" by auto
  then have h: "mapHas (n_file e) (this_nodes st)" by (force simp: mapHas_iff)
  have "e \<in> set (mapValues (this_nodes st))" using k by (force simp: mapValues_def)
  then have "\<lparr>l_source = n_file e, l_target = n_id e, l_value = 2, l_type = Some LStructure\<rparr>
               \<in> set (this_links (structureLinks st))"
    using assms(3) h by (simp add: structureLinks_def)
  then have 1: "\<exists>l \<in> set (links g). l_type l = Some LStructure \<and> l_source l = n_file e \<and> l_target l = n_id e"
    using g by (intro bexI[where x = "\<lparr>l_source = n_file e, l_target = n_id e, l_value = 2, l_type = Some LStructure\<rparr>"]) simp_all
  have "nodeOK (fst ` set (this_nodes st)) (n_file e, f)"
    using ni f by (auto simp: nodesInv_def list_all_iff)
  then have "n_id f = n_file e \<and> (CHR '':'' \<notin> set (n_file e) \<longrightarrow> n_type f = NFile)"
    by (auto simp: nodeOK_def)
  moreover have "f \<in> set (nodes g)" using f g by (force simp: mapValues_def)
  ultimately have 2: "\<exists>f \<in> set (nodes g). n_id f = n_file e \<and>
               (CHR '':'' \<notin> set (n_file e) \<longrightarrow> n_type f = NFile)"
    by blast
  from 1 2 show ?thesis by (intro conjI)
qed

lemma containment_completeness_tsProject:
  "analyzeFiles jsCallSites tsProject Typescript = Some tsGraph \<and>
   runNode \<in> set (nodes tsGraph) \<and> n_type runNode \<noteq> NFile \<and>
   (\<exists>l \<in> set (links tsGraph). l_type l = Some LStructure \<and> l_source l = n_file runNode \<and>
        l_target l = n_id runNode) \<and>
   CHR '':'' \<notin> set (n_file runNode) \<and>
   (\<exists>f \<in> set (nodes tsGraph). n_id f = n_file runNode \<and> n_type f = NFile)"
proof -
  have 1: "runNode \<in> set (nodes tsGraph)" by (simp add: tsGraph_def)
  have 2: "n_type runNode \<noteq> NFile" by (simp add: runNode_def)
  have 3: "CHR '':'' \<notin> set (n_file runNode)" by (simp add: runNode_def)
  from containment_completeness[OF tsProject_run 1 2] 3
  have "(\<exists>l \<in> set (links tsGraph). l_type l = Some LStructure \<and> l_source l = n_file runNode \<and>
        l_target l = n_id runNode)"
    and "(\<exists>f \<in> set (nodes tsGraph). n_id f = n_file runNode \<and> n_type f = NFile)"
    by blast+
  with tsProject_run 1 2 3 show ?thesis by (intro conjI)
qed

text \<open>
  C7. No self-loops: in the graph of every run that returns, no call edge has its source
  equal to its target.
\<close>

theorem no_self_loops:
  assumes "analyzeFiles callSites files mainLanguage = Some g"
    and "l \<in> set (links g)" and "l_type l = Some LCall"
  shows "l_source l \<noteq> l_target l"
proof -
  from analyzeFiles_inv[OF assms(1)] obtain st paths where i: "stInv paths st"
    and g: "g = \<lparr>nodes = mapValues (this_nodes (structureLinks st)), links = this_links (structureLinks st)\<rparr>"
    by blast
  from assms(2,3) g have "l \<in> set (this_links st)"
    by (auto simp: structureLinks_def)
  then have "linkOK l"
    using i by (simp add: stInv_def linksInv_def list_all_iff)
  then show ?thesis using assms(3) by (simp add: linkOK_def)
qed

theorem no_self_loops_witness:
  "analyzeFiles jsCallSites tsProject Typescript = Some tsGraph \<and>
   callLink ''a.ts:run'' ''b.ts:helper'' \<in> set (links tsGraph) \<and>
   l_type (callLink ''a.ts:run'' ''b.ts:helper'') = Some LCall \<and>
   l_source (callLink ''a.ts:run'' ''b.ts:helper'') \<noteq> l_target (callLink ''a.ts:run'' ''b.ts:helper'')"
proof -
  have 1: "callLink ''a.ts:run'' ''b.ts:helper'' \<in> set (links tsGraph)" by (simp add: tsGraph_def)
  have 2: "l_type (callLink ''a.ts:run'' ''b.ts:helper'') = Some LCall" by (simp add: callLink_def)
  from no_self_loops[OF tsProject_run 1 2] tsProject_run 1 2
  show ?thesis by (intro conjI)
qed

text \<open>
  C8. Termination on unbalanced delimiters: for every text and every start, the loop
  that walks to the end of a class body, run as a while loop on the pair of the counter
  and the index, ends, in the state that \<^const>\<open>scanBraces\<close> computes; the index it ends
  at is at most the length of the text (or the start, when that is larger); and the
  class pass and the whole extraction of a file return a state for every text.
\<close>

theorem class_body_scan_terminates:
  "while_option (braceCond content) (braceStep content) (braceCount, classEndIdx)
     = Some (scanBraces content (braceCount, classEndIdx)) \<and>
   snd (scanBraces content (braceCount, classEndIdx)) \<le> max classEndIdx (length content) \<and>
   (\<exists>st'. extractClassMethods content path lang folderColor st = Some st') \<and>
   (\<exists>st'. extractEntities content path lang st = Some st')"
  using scanBraces_while[of content "(braceCount, classEndIdx)"]
    scanBraces_bound[of content braceCount classEndIdx]
    extractClassMethods_returns[of content path lang folderColor st]
    extractEntities_returns[of content path lang st]
  by (intro conjI)

text \<open>
  A class whose body is never closed: the walk stops at the end of the text with the
  counter at 2, and the method before the end is still found.
\<close>

lemma stray_brace_example:
  "scanBraces ''class A { m() {'' (1, 9) = (2, 15) \<and>
   map_option (map fst \<circ> this_nodes)
     (extractClassMethods ''class A { m() {'' ''a.ts'' Typescript ''#00ff41'' cleared) = Some [''a.ts:A.m'']"
  by code_simp

text \<open>
  C9, as amended. Every file node of the graph of a run that returns carries the language
  \<^verbatim>\<open>system\<close>, which is the tag of no language.
\<close>

theorem file_language_system:
  assumes "analyzeFiles callSites files mainLanguage = Some g"
    and "e \<in> set (nodes g)" and "n_type e = NFile"
  shows "n_language e = ''system'' \<and> n_language e \<noteq> langTag lang"
proof -
  from analyzeFiles_inv[OF assms(1)] obtain st paths where i: "stInv paths st"
    and g: "g = \<lparr>nodes = mapValues (this_nodes (structureLinks st)), links = this_links (structureLinks st)\<rparr>"
    by blast
  from assms(2) g obtain k where k: "(k, e) \<in> set (this_nodes st)"
    by (auto simp: mapValues_def)
  then have "nodeOK (fst ` set (this_nodes st)) (k, e)"
    using i by (auto simp: stInv_def nodesInv_def list_all_iff)
  then have "n_language e = ''system''" using assms(3) by (simp add: nodeOK_def)
  then show ?thesis using langTag_not_system[of lang] by simp
qed

theorem file_language_system_witness:
  "analyzeFiles jsCallSites tsProject Typescript = Some tsGraph \<and>
   fileNode ''a.ts'' \<in> set (nodes tsGraph) \<and> n_type (fileNode ''a.ts'') = NFile \<and>
   n_language (fileNode ''a.ts'') = ''system'' \<and>
   n_language (fileNode ''a.ts'') \<noteq> langTag Typescript"
proof -
  have 1: "fileNode ''a.ts'' \<in> set (nodes tsGraph)" by (simp add: tsGraph_def)
  have 2: "n_type (fileNode ''a.ts'') = NFile" by (simp add: fileNode_def)
  from file_language_system[OF tsProject_run 1 2, of Typescript] tsProject_run 1 2
  show ?thesis by (intro conjI) simp_all
qed

text \<open>
  The claim as the specification states it, with the tag \<^verbatim>\<open>structural\<close>, fails on the
  code: the file node of \<^verbatim>\<open>a.ts\<close> in the graph of the example carries another tag.
\<close>

theorem file_language_counterexample:
  "analyzeFiles jsCallSites tsProject Typescript = Some tsGraph \<and>
   fileNode ''a.ts'' \<in> set (nodes tsGraph) \<and> n_type (fileNode ''a.ts'') = NFile \<and>
   n_language (fileNode ''a.ts'') \<noteq> ''structural''"
  using tsProject_run by (simp add: tsGraph_def fileNode_def)

text \<open>
  C10. A call site with no enclosing entity is dropped: when every entity of the file
  that is not a file node is declared after the line of the match, the body of the loop
  leaves the state as it is, so no edge is pushed and no size grows.
\<close>

theorem no_enclosing_entity_drops_match:
  assumes "\<forall>n \<in> set (mapValues (this_nodes st)).
             n_file n = path \<and> n_type n \<noteq> NFile \<longrightarrow> lineOf content idx < n_line n"
  shows "callStep content path targetNode idx st = st"
  using findEnclosingEntity_None[OF assms] by (simp add: callStep_def)

theorem no_enclosing_entity_witness:
  "jsCallSites (callPattern ''helper'') early_ts = Some [0] \<and>
   lineOf early_ts 0 = 1 \<and>
   filter (\<lambda>n. n_file n = ''a.ts'' \<and> n_type n \<noteq> NFile) (mapValues (this_nodes earlyState))
     = [runNode\<lparr>n_line := 3\<rparr>] \<and>
   callStep early_ts ''a.ts'' helperNode 0 earlyState = earlyState"
proof -
  have 0: "jsCallSites (callPattern ''helper'') early_ts = Some [0]" by code_simp
  have l: "lineOf early_ts 0 = 1" by code_simp
  have f: "filter (\<lambda>n. n_file n = ''a.ts'' \<and> n_type n \<noteq> NFile) (mapValues (this_nodes earlyState))
     = [runNode\<lparr>n_line := 3\<rparr>]"
    by (simp add: earlyState_def cleared_def mapValues_def fileNode_def runNode_def helperNode_def)
  have 1: "\<forall>n \<in> set (mapValues (this_nodes earlyState)).
      n_file n = ''a.ts'' \<and> n_type n \<noteq> NFile \<longrightarrow> lineOf early_ts 0 < n_line n"
    unfolding l by (simp add: earlyState_def cleared_def mapValues_def fileNode_def runNode_def helperNode_def)
  from no_enclosing_entity_drops_match[OF 1, of helperNode] 0 l f show ?thesis by (intro conjI)
qed

end
